theory Spec2Isabelle
  imports Main
begin

section \<open>Values\<close>

text \<open>
  The JavaScript values the library handles. Primitives carry their payload; an instance of
  the library's \<open>Promise\<close> class is a reference into the store of promise objects; a plain
  object or a callable carries a description of its \<open>then\<close> member; the \<open>results\<close> array of
  a combinator and the aggregate of \<open>any\<close> are references into the store of combinator
  variables, because the source hands them out by reference.

  The \<open>then\<close> member of a foreign object is described by what reading it and calling it do:
  reading it may throw (a getter); it may be absent or not callable; or it is a function,
  given by the calls it makes to the two callbacks it receives, in order, and the value it
  throws at the end of the call, if any. Every read of the member gives the same answer. A
  callback that the function keeps and calls after it has returned is a call of
  \<open>call_callback\<close> below, made by the program at that later time.

  Numbers are integers here; the library never computes with a payload.
\<close>

datatype pstate = PEDDING | FULFILLED | REJECTED

datatype jsval =
    JUndefined
  | JNull
  | JBool bool
  | JNum int
  | JStr string
  | PromiseRef nat
  | JObject then_member
  | JFunction then_member
  | ArrayRef nat
  | AggregateRef nat
  | TypeError string
  | JError jsval
  | SettledRecord pstate jsval
and then_member =
    NotCallable
  | GetterThrows jsval
  | ThenFun "signal list" "jsval option"
and signal =
    CallOnFulfill jsval
  | CallOnReject jsval

text \<open>\<open>const isFunction = (func) => typeof func === 'function'\<close>\<close>

fun isFunction :: "jsval \<Rightarrow> bool" where
  "isFunction (JFunction m) = True"
| "isFunction v = False"

text \<open>
  \<open>const isObject = (obj) => obj && typeof obj === 'object'\<close>. The operator \<open>typeof\<close>
  answers \<open>'object'\<close> for \<open>null\<close>, and the conjunction with \<open>obj\<close> itself rules \<open>null\<close> out.
  The result is used as a condition only, so the model returns its truthiness.
\<close>

fun truthy :: "jsval \<Rightarrow> bool" where
  "truthy JUndefined = False"
| "truthy JNull = False"
| "truthy (JBool b) = b"
| "truthy (JNum n) = (n \<noteq> 0)"
| "truthy (JStr s) = (s \<noteq> [])"
| "truthy v = True"

fun typeof_object :: "jsval \<Rightarrow> bool" where
  "typeof_object JNull = True"
| "typeof_object (PromiseRef p) = True"
| "typeof_object (JObject m) = True"
| "typeof_object (ArrayRef c) = True"
| "typeof_object (AggregateRef c) = True"
| "typeof_object (TypeError s) = True"
| "typeof_object (JError v) = True"
| "typeof_object (SettledRecord st v) = True"
| "typeof_object v = False"

definition isObject :: "jsval \<Rightarrow> bool" where
  "isObject obj = (truthy obj \<and> typeof_object obj)"

text \<open>Reading \<open>x.then\<close> on an object or callable.\<close>

fun get_then :: "jsval \<Rightarrow> then_member" where
  "get_then (JObject m) = m"
| "get_then (JFunction m) = m"
| "get_then v = NotCallable"

text \<open>\<open>x instanceof Promise\<close>, with the address of the promise when it holds.\<close>

fun instance_of_Promise :: "jsval \<Rightarrow> nat option" where
  "instance_of_Promise (PromiseRef p) = Some p"
| "instance_of_Promise v = None"

section \<open>The store\<close>

text \<open>
  A handler is what \<open>then\<close> receives for \<open>onFulfilled\<close> and \<open>onRejected\<close>. A function supplied
  by the user is given by a label, under which its calls are recorded, and by what it does
  with its argument: return a value (\<open>Inr\<close>) or throw one (\<open>Inl\<close>). What such a function
  does to promises while it runs (a call of \<open>then\<close>, of an entry point it holds) is not part
  of the handler: it is a step of the program of its own. The other constructors
  are the closures the library itself passes to \<open>then\<close>: the two defaults of \<open>then\<close>;
  \<open>value => { resolvePromise(promise, value, resolve, reject) }\<close>; the entry point \<open>resolve\<close>
  or \<open>reject\<close> of a promise, passed as it is or inside an arrow that only calls it; and the
  handlers of the combinators, which carry the variables they close over: the cell of \<open>total\<close>
  and \<open>results\<close>, the index \<open>i\<close>, \<open>promisesLists.length\<close> and the promise under construction.
\<close>

datatype handler =
    NotAFunction
  | User nat "jsval \<Rightarrow> jsval + jsval"
  | PassValue
  | ThrowReason
  | ResolveInto nat
  | EntryResolve nat
  | EntryReject nat
  | AllFulfilled nat nat nat nat
  | SettledFulfilled nat nat nat nat
  | SettledRejected nat nat nat nat
  | AnyRejected nat nat nat nat

text \<open>
  The body handed to \<open>queueMicrotask\<close> by \<open>then\<close>: the promise \<open>this\<close>, the handler and the
  promise that \<open>then\<close> returned. A callback stored in \<open>fulfilledCallbacks\<close> or
  \<open>rejectedCallbacks\<close> is \<open>() => queueMicrotask(...)\<close> of such a body.
\<close>

datatype task =
    OnFulfilledTask nat handler nat
  | OnRejectedTask nat handler nat

datatype thunk = QueueMicrotask task

record promise =
  state :: pstate
  value' :: jsval
  reason :: jsval
  fulfilledCallbacks :: "thunk list"
  rejectedCallbacks :: "thunk list"

text \<open>The variables \<open>total\<close> and \<open>results\<close> that the handlers of one combinator call share.\<close>

record cell =
  total :: nat
  results :: "jsval option list"

text \<open>What the library does that its caller can observe besides the promises themselves.\<close>

datatype event =
    ReadThen jsval
  | CallThen jsval
  | CallHandler nat jsval

text \<open>
  The whole store: the promise objects by address, with the next free address; the variables
  of the combinator calls; the \<open>called\<close> flags of the calls of foreign \<open>then\<close> functions; the
  queue of the host's \<open>queueMicrotask\<close>, oldest first; and the record of observable events.
\<close>

record world =
  heap :: "nat \<Rightarrow> promise"
  nextPromise :: nat
  cells :: "nat \<Rightarrow> cell"
  nextCell :: nat
  guards :: "nat \<Rightarrow> bool"
  nextGuard :: nat
  microtasks :: "task list"
  log :: "event list"

definition queueMicrotask :: "world \<Rightarrow> task \<Rightarrow> world" where
  "queueMicrotask w t = w\<lparr>microtasks := microtasks w @ [t]\<rparr>"

fun call_thunk :: "world \<Rightarrow> thunk \<Rightarrow> world" where
  "call_thunk w (QueueMicrotask t) = queueMicrotask w t"

definition emit :: "world \<Rightarrow> event \<Rightarrow> world" where
  "emit w e = w\<lparr>log := log w @ [e]\<rparr>"

definition upd :: "world \<Rightarrow> nat \<Rightarrow> (promise \<Rightarrow> promise) \<Rightarrow> world" where
  "upd w p f = w\<lparr>heap := (heap w)(p := f (heap w p))\<rparr>"

section \<open>The Promise class\<close>

text \<open>\<open>initValue\<close>, run by the constructor on the new object.\<close>

definition initValue :: promise where
  "initValue = \<lparr>state = PEDDING, value' = JNull, reason = JNull,
                 fulfilledCallbacks = [], rejectedCallbacks = []\<rparr>"

definition alloc :: "world \<Rightarrow> world \<times> nat" where
  "alloc w = (w\<lparr>heap := (heap w)(nextPromise w := initValue),
                nextPromise := Suc (nextPromise w)\<rparr>, nextPromise w)"

text \<open>
  The loops \<open>while (this.fulfilledCallbacks.length) this.fulfilledCallbacks.shift()()\<close> of
  \<open>resolve\<close> and its twin in \<open>reject\<close>: each round removes the first callback from the list of
  the promise and calls it.
\<close>

function drainFulfilled :: "world \<Rightarrow> nat \<Rightarrow> world" where
  "drainFulfilled w p =
     (case fulfilledCallbacks (heap w p) of
        [] \<Rightarrow> w
      | th # rest \<Rightarrow>
          drainFulfilled (call_thunk (upd w p (\<lambda>ob. ob\<lparr>fulfilledCallbacks := rest\<rparr>)) th) p)"
  by pat_completeness auto
termination
proof (relation "measure (\<lambda>(w, p). length (fulfilledCallbacks (heap w p)))")
  show "wf (measure (\<lambda>(w, p). length (fulfilledCallbacks (heap w p))))" by simp
next
  fix w :: world and p th rest
  assume "fulfilledCallbacks (heap w p) = th # rest"
  then show "((call_thunk (upd w p (\<lambda>ob. ob\<lparr>fulfilledCallbacks := rest\<rparr>)) th, p), (w, p))
     \<in> measure (\<lambda>(w, p). length (fulfilledCallbacks (heap w p)))"
    by (cases th) (simp add: upd_def queueMicrotask_def)
qed

function drainRejected :: "world \<Rightarrow> nat \<Rightarrow> world" where
  "drainRejected w p =
     (case rejectedCallbacks (heap w p) of
        [] \<Rightarrow> w
      | th # rest \<Rightarrow>
          drainRejected (call_thunk (upd w p (\<lambda>ob. ob\<lparr>rejectedCallbacks := rest\<rparr>)) th) p)"
  by pat_completeness auto
termination
proof (relation "measure (\<lambda>(w, p). length (rejectedCallbacks (heap w p)))")
  show "wf (measure (\<lambda>(w, p). length (rejectedCallbacks (heap w p))))" by simp
next
  fix w :: world and p th rest
  assume "rejectedCallbacks (heap w p) = th # rest"
  then show "((call_thunk (upd w p (\<lambda>ob. ob\<lparr>rejectedCallbacks := rest\<rparr>)) th, p), (w, p))
     \<in> measure (\<lambda>(w, p). length (rejectedCallbacks (heap w p)))"
    by (cases th) (simp add: upd_def queueMicrotask_def)
qed

text \<open>The two settlement entry points of a promise, \<open>this.resolve\<close> and \<open>this.reject\<close>.\<close>

definition resolve :: "world \<Rightarrow> nat \<Rightarrow> jsval \<Rightarrow> world" where
  "resolve w this v =
     (if state (heap w this) = PEDDING
      then drainFulfilled (upd (upd w this (\<lambda>ob. ob\<lparr>value' := v\<rparr>)) this (\<lambda>ob. ob\<lparr>state := FULFILLED\<rparr>)) this
      else w)"

definition reject :: "world \<Rightarrow> nat \<Rightarrow> jsval \<Rightarrow> world" where
  "reject w this r =
     (if state (heap w this) = PEDDING
      then drainRejected (upd (upd w this (\<lambda>ob. ob\<lparr>reason := r\<rparr>)) this (\<lambda>ob. ob\<lparr>state := REJECTED\<rparr>)) this
      else w)"

text \<open>
  The constructor, for an executor that is a function: \<open>initValue\<close> on the new object, then
  the executor inside \<open>try\<close>, and \<open>this.reject(error)\<close> when it throws. The executor is
  given as a function of the store and of the new promise, whose two entry points it
  receives; it returns the store it leaves and what it threw, if anything.
\<close>

definition construct :: "world \<Rightarrow> (world \<Rightarrow> nat \<Rightarrow> world \<times> jsval option) \<Rightarrow> world \<times> nat" where
  "construct w executor =
     (let (w1, this) = alloc w
      in case executor w1 this of
           (w2, None) \<Rightarrow> (w2, this)
         | (w2, Some error) \<Rightarrow> (reject w2 this error, this))"

text \<open>
  \<open>then(onFulfilled, onRejected)\<close>. An argument that is not a function is replaced by
  \<open>value => value\<close> or \<open>reason => { throw reason }\<close>. The executor of the new promise looks at
  the state of \<open>this\<close> and either calls one of the two callbacks, which queues the microtask,
  or stores both.
\<close>

definition then' :: "world \<Rightarrow> nat \<Rightarrow> handler \<Rightarrow> handler \<Rightarrow> world \<times> nat" where
  "then' w this onFulfilled onRejected =
     (let onFulfilled = (case onFulfilled of NotAFunction \<Rightarrow> PassValue | _ \<Rightarrow> onFulfilled);
          onRejected = (case onRejected of NotAFunction \<Rightarrow> ThrowReason | _ \<Rightarrow> onRejected)
      in construct w (\<lambda>w1 promise.
           let onFulfilledMicrotask = QueueMicrotask (OnFulfilledTask this onFulfilled promise);
               onRejectedMicrotask = QueueMicrotask (OnRejectedTask this onRejected promise)
           in if state (heap w1 this) = FULFILLED then (call_thunk w1 onFulfilledMicrotask, None)
              else if state (heap w1 this) = REJECTED then (call_thunk w1 onRejectedMicrotask, None)
              else if state (heap w1 this) = PEDDING then
                (upd (upd w1 this (\<lambda>ob. ob\<lparr>fulfilledCallbacks := fulfilledCallbacks ob @ [onFulfilledMicrotask]\<rparr>))
                     this (\<lambda>ob. ob\<lparr>rejectedCallbacks := rejectedCallbacks ob @ [onRejectedMicrotask]\<rparr>), None)
              else (w1, None)))"

text \<open>
  \<open>catch(onRejected)\<close> is \<open>this.then(null, onRejected)\<close>. The method \<open>finally\<close>, built from
  \<open>then\<close> and the static \<open>resolve\<close> in the same way, is not needed below and is left out.
\<close>

definition catch' :: "world \<Rightarrow> nat \<Rightarrow> handler \<Rightarrow> world \<times> nat" where
  "catch' w this onRejected = then' w this NotAFunction onRejected"

section \<open>The resolution procedure\<close>

text \<open>
  What a foreign \<open>then\<close> function, or an executor, may be handed as a callback: the two
  arrows that \<open>resolvePromise\<close> builds around the \<open>called\<close> flag of one call, for one promise,
  and the two settlement entry points of a promise.
\<close>

datatype callback =
    GuardedFulfill nat nat
  | GuardedReject nat nat
  | Resolve nat
  | Reject nat

text \<open>
  \<open>resolvePromise(promise, x, resolve, reject)\<close>. Every call in the source passes the entry
  points of \<open>promise\<close> itself as \<open>resolve\<close> and \<open>reject\<close> (they are the arguments the
  constructor gave to the executor inside \<open>then\<close>), so the model takes the promise alone.
  \<open>call_callback\<close> is a call of one of the callbacks above with an argument, and \<open>call_fun\<close>
  runs the body of a foreign function that was handed two callbacks: it makes its calls in
  order, and what it throws at the end is left to its caller.
\<close>

function (sequential) resolvePromise :: "world \<Rightarrow> nat \<Rightarrow> jsval \<Rightarrow> world"
  and call_callback :: "world \<Rightarrow> callback \<Rightarrow> jsval \<Rightarrow> world"
  and call_fun :: "world \<Rightarrow> callback \<Rightarrow> callback \<Rightarrow> signal list \<Rightarrow> world"
where
  "resolvePromise w promise x =
     (if x = PromiseRef promise
      then reject w promise (TypeError ''Chaining cycle detected for promise'')
      else case instance_of_Promise x of
        Some xp \<Rightarrow> fst (then' w xp (ResolveInto promise) (EntryReject promise))
      | None \<Rightarrow>
        if isObject x \<or> isFunction x then
          (case get_then x of
             GetterThrows error \<Rightarrow> reject (emit w (ReadThen x)) promise error
           | ThenFun calls thrown \<Rightarrow>
               (let w1 = emit w (ReadThen x);
                    called = nextGuard w1;
                    w2 = w1\<lparr>guards := (guards w1)(called := False), nextGuard := Suc called\<rparr>;
                    w3 = call_fun (emit w2 (CallThen x))
                           (GuardedFulfill called promise) (GuardedReject called promise) calls
                in case thrown of
                     None \<Rightarrow> w3
                   | Some error \<Rightarrow>
                       if guards w3 called then w3
                       else reject (w3\<lparr>guards := (guards w3)(called := True)\<rparr>) promise error)
           | NotCallable \<Rightarrow> resolve (emit w (ReadThen x)) promise x)
        else resolve w promise x)"
| "call_callback w (GuardedFulfill called promise) y =
     (if guards w called then w
      else resolvePromise (w\<lparr>guards := (guards w)(called := True)\<rparr>) promise y)"
| "call_callback w (GuardedReject called promise) r =
     (if guards w called then w
      else reject (w\<lparr>guards := (guards w)(called := True)\<rparr>) promise r)"
| "call_callback w (Resolve promise) v = resolve w promise v"
| "call_callback w (Reject promise) r = reject w promise r"
| "call_fun w onFulfill onReject [] = w"
| "call_fun w onFulfill onReject (CallOnFulfill y # calls) =
     call_fun (call_callback w onFulfill y) onFulfill onReject calls"
| "call_fun w onFulfill onReject (CallOnReject r # calls) =
     call_fun (call_callback w onReject r) onFulfill onReject calls"
  by pat_completeness auto
termination
proof (relation "measure (\<lambda>a. case a of
          Inl (w, promise, x) \<Rightarrow> 3 * size x + 1
        | Inr (Inl (w, cb, v)) \<Rightarrow> 3 * size v + 2
        | Inr (Inr (w, onFulfill, onReject, calls)) \<Rightarrow> 3 * size_list size calls)")
  fix x :: jsval and calls thrown
  assume "get_then x = ThenFun calls thrown"
  then have "size_list size calls < size x"
    by (cases x) auto
  then show "\<And>w promise w1 called w2.
       (Inr (Inr (emit w2 (CallThen x), GuardedFulfill called promise,
                  GuardedReject called promise, calls)), Inl (w, promise, x))
       \<in> measure (\<lambda>a. case a of
          Inl (w, promise, x) \<Rightarrow> 3 * size x + 1
        | Inr (Inl (w, cb, v)) \<Rightarrow> 3 * size v + 2
        | Inr (Inr (w, onFulfill, onReject, calls)) \<Rightarrow> 3 * size_list size calls)"
    by simp
qed auto

declare resolvePromise.simps [simp del]

section \<open>Handlers and microtasks\<close>

text \<open>
  \<open>results[i] = v\<close> on a JavaScript array: an index at or past the length extends the array,
  and the positions skipped are holes.
\<close>

definition array_set :: "jsval option list \<Rightarrow> nat \<Rightarrow> jsval \<Rightarrow> jsval option list" where
  "array_set xs i v =
     (if i < length xs then xs[i := Some v]
      else xs @ replicate (i - length xs) None @ [Some v])"

text \<open>
  The body shared by the handlers of \<open>all\<close>, \<open>allSettled\<close> and \<open>any\<close>: store at the index,
  then \<open>(++total === promisesLists.length) && settle(results)\<close>.
\<close>

definition store_and_count ::
  "world \<Rightarrow> nat \<Rightarrow> nat \<Rightarrow> jsval \<Rightarrow> nat \<Rightarrow> (world \<Rightarrow> world) \<Rightarrow> world" where
  "store_and_count w c i v n settle =
     (let w1 = w\<lparr>cells := (cells w)(c := (cells w c)\<lparr>results := array_set (results (cells w c)) i v\<rparr>)\<rparr>;
          w2 = w1\<lparr>cells := (cells w1)(c := (cells w1 c)\<lparr>total := Suc (total (cells w1 c))\<rparr>)\<rparr>
      in if total (cells w2 c) = n then settle w2 else w2)"

text \<open>
  A call of a handler with one argument: the store afterwards, and the value returned
  (\<open>Inr\<close>) or thrown (\<open>Inl\<close>). The arrows of the library have block bodies and return
  \<open>undefined\<close>; the entry points return \<open>undefined\<close> too.
\<close>

fun call_handler :: "world \<Rightarrow> handler \<Rightarrow> jsval \<Rightarrow> world \<times> (jsval + jsval)" where
  "call_handler w NotAFunction v = (w, Inl (TypeError ''not a function''))"
| "call_handler w (User l f) v = (emit w (CallHandler l v), f v)"
| "call_handler w PassValue v = (w, Inr v)"
| "call_handler w ThrowReason v = (w, Inl v)"
| "call_handler w (ResolveInto promise) v = (resolvePromise w promise v, Inr JUndefined)"
| "call_handler w (EntryResolve promise) v = (resolve w promise v, Inr JUndefined)"
| "call_handler w (EntryReject promise) v = (reject w promise v, Inr JUndefined)"
| "call_handler w (AllFulfilled c i n promise) v =
     (store_and_count w c i v n (\<lambda>w. resolve w promise (ArrayRef c)), Inr JUndefined)"
| "call_handler w (SettledFulfilled c i n promise) v =
     (store_and_count w c i (SettledRecord FULFILLED v) n (\<lambda>w. resolve w promise (ArrayRef c)),
      Inr JUndefined)"
| "call_handler w (SettledRejected c i n promise) v =
     (store_and_count w c i (SettledRecord REJECTED v) n (\<lambda>w. resolve w promise (ArrayRef c)),
      Inr JUndefined)"
| "call_handler w (AnyRejected c i n promise) v =
     (store_and_count w c i (JError v) n (\<lambda>w. reject w promise (AggregateRef c)),
      Inr JUndefined)"

text \<open>
  The microtask that \<open>then\<close> queues:
  \<open>try { const x = onFulfilled(this.value); resolvePromise(promise, x, resolve, reject) }
  catch (error) { reject(error) }\<close>, and the same with \<open>onRejected(this.reason)\<close>.
\<close>

fun run_task :: "world \<Rightarrow> task \<Rightarrow> world" where
  "run_task w (OnFulfilledTask this onFulfilled promise) =
     (case call_handler w onFulfilled (value' (heap w this)) of
        (w1, Inl error) \<Rightarrow> reject w1 promise error
      | (w1, Inr x) \<Rightarrow> resolvePromise w1 promise x)"
| "run_task w (OnRejectedTask this onRejected promise) =
     (case call_handler w onRejected (reason (heap w this)) of
        (w1, Inl error) \<Rightarrow> reject w1 promise error
      | (w1, Inr x) \<Rightarrow> resolvePromise w1 promise x)"

text \<open>
  The host's scheduler takes the oldest microtask off its queue and runs it; with an empty
  queue it does nothing. \<open>run_microtasks n\<close> is \<open>n\<close> such turns.
\<close>

definition run_microtask :: "world \<Rightarrow> world" where
  "run_microtask w =
     (case microtasks w of
        [] \<Rightarrow> w
      | t # ts \<Rightarrow> run_task (w\<lparr>microtasks := ts\<rparr>) t)"

fun run_microtasks :: "nat \<Rightarrow> world \<Rightarrow> world" where
  "run_microtasks 0 w = w"
| "run_microtasks (Suc n) w = run_microtasks n (run_microtask w)"

section \<open>Construction by the user and the static functions\<close>

text \<open>
  What a user passes to \<open>new Promise\<close>: something that is not a function, or an executor,
  given like a foreign \<open>then\<close> by the calls it makes to \<open>resolve\<close> and \<open>reject\<close> and by what
  it throws at the end. The TypeError of the source names the argument in its message; the
  model keeps the fixed part of the message, here and in \<open>not_iterable\<close> below.
\<close>

datatype executor = NotAnExecutor | Executor "signal list" "jsval option"

definition new_Promise :: "world \<Rightarrow> executor \<Rightarrow> world \<times> (jsval + nat)" where
  "new_Promise w executor =
     (case executor of
        NotAnExecutor \<Rightarrow> (w, Inl (TypeError ''Promise resolver is not a function''))
      | Executor calls thrown \<Rightarrow>
          (case construct w (\<lambda>w1 this. (call_fun w1 (Resolve this) (Reject this) calls, thrown)) of
             (w2, this) \<Rightarrow> (w2, Inr this)))"

text \<open>
  \<open>Promise.deferred\<close>: a new promise whose executor only stores \<open>resolve\<close> and \<open>reject\<close> in the
  object returned, so that the caller can use \<^const>\<open>resolve\<close> and \<^const>\<open>reject\<close> on it.
\<close>

definition deferred :: "world \<Rightarrow> world \<times> nat" where
  "deferred w = construct w (\<lambda>w1 this. (w1, None))"

text \<open>
  \<open>static resolve(value)\<close>. The member \<open>then\<close> is read outside any \<open>try\<close>, so a getter that
  throws makes the call throw; it is read a second time inside the executor, where the
  constructor catches what the call of \<open>then\<close> throws.
\<close>

definition Promise_resolve :: "world \<Rightarrow> jsval \<Rightarrow> world \<times> (jsval + nat)" where
  "Promise_resolve w v =
     (case instance_of_Promise v of
        Some p \<Rightarrow> (w, Inr p)
      | None \<Rightarrow>
        if isObject v then
          (case get_then v of
             GetterThrows error \<Rightarrow> (emit w (ReadThen v), Inl error)
           | ThenFun calls thrown \<Rightarrow>
               (case construct (emit w (ReadThen v)) (\<lambda>w1 this.
                       (call_fun (emit (emit w1 (ReadThen v)) (CallThen v))
                          (Resolve this) (Reject this) calls, thrown)) of
                  (w2, this) \<Rightarrow> (w2, Inr this))
           | NotCallable \<Rightarrow>
               (case construct (emit w (ReadThen v)) (\<lambda>w1 this. (resolve w1 this v, None)) of
                  (w2, this) \<Rightarrow> (w2, Inr this)))
        else
          (case construct w (\<lambda>w1 this. (resolve w1 this v, None)) of
             (w2, this) \<Rightarrow> (w2, Inr this)))"

text \<open>\<open>static reject(reason)\<close>\<close>

definition Promise_reject :: "world \<Rightarrow> jsval \<Rightarrow> world \<times> nat" where
  "Promise_reject w r = construct w (\<lambda>w1 this. (reject w1 this r, None))"

section \<open>The combinators\<close>

text \<open>
  The argument of a combinator either has no \<open>Symbol.iterator\<close> member or spreads into a
  list of values.
\<close>

datatype iterable = NotIterable | Iterable "jsval list"

definition not_iterable :: jsval where
  "not_iterable = TypeError ''is not iterable (cannot read property Symbol(Symbol.iterator))''"

text \<open>\<open>let total = 0; const results = []\<close>: the variables of one call, in a new cell.\<close>

definition new_cell :: "world \<Rightarrow> world \<times> nat" where
  "new_cell w = (w\<lparr>cells := (cells w)(nextCell w := \<lparr>total = 0, results = []\<rparr>),
                   nextCell := Suc (nextCell w)\<rparr>, nextCell w)"

text \<open>
  \<open>promisesLists.forEach((p, i) => { this.resolve(p).then(..., ...) })\<close>, from index \<open>i\<close> on,
  for the pair of handlers that each combinator builds at an index. When \<open>this.resolve(p)\<close>
  throws, the loop ends there and the executor throws.
\<close>

fun forEach_then ::
  "(nat \<Rightarrow> handler \<times> handler) \<Rightarrow> world \<Rightarrow> nat \<Rightarrow> jsval list \<Rightarrow> world \<times> jsval option" where
  "forEach_then hs w i [] = (w, None)"
| "forEach_then hs w i (p # ps) =
     (case Promise_resolve w p of
        (w1, Inl error) \<Rightarrow> (w1, Some error)
      | (w1, Inr q) \<Rightarrow>
          forEach_then hs (fst (then' w1 q (fst (hs i)) (snd (hs i)))) (Suc i) ps)"

definition Promise_all :: "world \<Rightarrow> iterable \<Rightarrow> world \<times> (jsval + nat)" where
  "Promise_all w promises =
     (case promises of
        NotIterable \<Rightarrow> (w, Inl not_iterable)
      | Iterable promisesLists \<Rightarrow>
          (let (w1, c) = new_cell w
           in if promisesLists = [] then Promise_resolve w1 (ArrayRef c)
              else (case construct w1 (\<lambda>w2 this.
                           forEach_then (\<lambda>i. (AllFulfilled c i (length promisesLists) this,
                                               EntryReject this)) w2 0 promisesLists) of
                      (w3, this) \<Rightarrow> (w3, Inr this))))"

definition Promise_race :: "world \<Rightarrow> iterable \<Rightarrow> world \<times> (jsval + nat)" where
  "Promise_race w promises =
     (case promises of
        NotIterable \<Rightarrow> (w, Inl not_iterable)
      | Iterable promisesLists \<Rightarrow>
          (case construct w (\<lambda>w2 this.
                  forEach_then (\<lambda>i. (EntryResolve this, EntryReject this)) w2 0 promisesLists) of
             (w3, this) \<Rightarrow> (w3, Inr this)))"

definition Promise_allSettled :: "world \<Rightarrow> iterable \<Rightarrow> world \<times> (jsval + nat)" where
  "Promise_allSettled w promises =
     (case promises of
        NotIterable \<Rightarrow> (w, Inl not_iterable)
      | Iterable promisesLists \<Rightarrow>
          (let (w1, c) = new_cell w
           in if promisesLists = [] then Promise_resolve w1 (ArrayRef c)
              else (case construct w1 (\<lambda>w2 this.
                           forEach_then (\<lambda>i. (SettledFulfilled c i (length promisesLists) this,
                                               SettledRejected c i (length promisesLists) this))
                             w2 0 promisesLists) of
                      (w3, this) \<Rightarrow> (w3, Inr this))))"

text \<open>
  \<open>any\<close> starts with \<open>const results = new AggregateError()\<close>. The constructor is the host's.
  The comment in the source expects an empty object that behaves like an array. The
  constructor of ECMA-262 (section "AggregateError ( errors, message )") iterates over its
  first argument, which is \<open>undefined\<close> here, and so throws a TypeError; a host without the
  constructor throws a ReferenceError at the same place. The model takes what the host does
  as a parameter: the constructor returns an empty aggregate, or it throws this value.
\<close>

datatype aggregate_constructor = ReturnsEmptyAggregate | ConstructorThrows jsval

definition ecma262_AggregateError :: aggregate_constructor where
  "ecma262_AggregateError =
     ConstructorThrows (TypeError ''undefined is not iterable (cannot read property Symbol(Symbol.iterator))'')"

definition Promise_any :: "aggregate_constructor \<Rightarrow> world \<Rightarrow> iterable \<Rightarrow> world \<times> (jsval + nat)" where
  "Promise_any newAggregateError w promises =
     (case promises of
        NotIterable \<Rightarrow> (w, Inl not_iterable)
      | Iterable promisesLists \<Rightarrow>
          (case newAggregateError of
             ConstructorThrows error \<Rightarrow> (w, Inl error)
           | ReturnsEmptyAggregate \<Rightarrow>
               (let (w1, c) = new_cell w
                in if promisesLists = []
                   then (case Promise_reject w1 (AggregateRef c) of (w2, this) \<Rightarrow> (w2, Inr this))
                   else (case construct w1 (\<lambda>w2 this.
                                forEach_then (\<lambda>i. (EntryResolve this,
                                                    AnyRejected c i (length promisesLists) this))
                                  w2 0 promisesLists) of
                           (w3, this) \<Rightarrow> (w3, Inr this)))))"

text \<open>The store before anything has run.\<close>

definition empty_world :: world where
  "empty_world = \<lparr>heap = (\<lambda>p. initValue), nextPromise = 0,
                   cells = (\<lambda>c. \<lparr>total = 0, results = []\<rparr>), nextCell = 0,
                   guards = (\<lambda>g. False), nextGuard = 0, microtasks = [], log = []\<rparr>"

section \<open>Auxiliary notions for the properties\<close>

text \<open>The microtask that a stored callback queues when it is called.\<close>

fun thunk_task :: "thunk \<Rightarrow> task" where
  "thunk_task (QueueMicrotask t) = t"

text \<open>The promise that a callback, a handler or a microtask of the library may settle.\<close>

fun callback_target :: "callback \<Rightarrow> nat" where
  "callback_target (GuardedFulfill called promise) = promise"
| "callback_target (GuardedReject called promise) = promise"
| "callback_target (Resolve promise) = promise"
| "callback_target (Reject promise) = promise"

fun handler_target :: "handler \<Rightarrow> nat option" where
  "handler_target (ResolveInto promise) = Some promise"
| "handler_target (EntryResolve promise) = Some promise"
| "handler_target (EntryReject promise) = Some promise"
| "handler_target (AllFulfilled c i n promise) = Some promise"
| "handler_target (SettledFulfilled c i n promise) = Some promise"
| "handler_target (SettledRejected c i n promise) = Some promise"
| "handler_target (AnyRejected c i n promise) = Some promise"
| "handler_target h = None"

text \<open>
  \<open>extends w w'\<close>: the store \<open>w'\<close> has every promise and every \<open>called\<close> flag of \<open>w\<close>, each
  promise that was settled in \<open>w\<close> is the same object in \<open>w'\<close>, and each flag that was set in
  \<open>w\<close> is set in \<open>w'\<close>.
\<close>

definition extends :: "world \<Rightarrow> world \<Rightarrow> bool" where
  "extends w w' \<longleftrightarrow>
     nextPromise w \<le> nextPromise w' \<and> nextGuard w \<le> nextGuard w' \<and>
     (\<forall>p < nextPromise w. state (heap w p) \<noteq> PEDDING \<longrightarrow> heap w' p = heap w p) \<and>
     (\<forall>g < nextGuard w. guards w g \<longrightarrow> guards w' g)"

text \<open>
  One step of a program that uses the library: a call of an entry point that the program
  holds, of a callback that a foreign \<open>then\<close> kept, of a method or static function, or one
  turn of the host's scheduler.
\<close>

inductive step :: "world \<Rightarrow> world \<Rightarrow> bool" where
  step_resolve: "step w (resolve w p v)"
| step_reject: "step w (reject w p r)"
| step_callback: "step w (call_callback w cb v)"
| step_then: "step w (fst (then' w p onFulfilled onRejected))"
| step_microtask: "step w (run_microtask w)"
| step_new: "step w (fst (new_Promise w executor))"
| step_deferred: "step w (fst (deferred w))"
| step_Promise_resolve: "step w (fst (Promise_resolve w v))"
| step_Promise_reject: "step w (fst (Promise_reject w r))"
| step_all: "step w (fst (Promise_all w promises))"
| step_race: "step w (fst (Promise_race w promises))"
| step_allSettled: "step w (fst (Promise_allSettled w promises))"
| step_any: "step w (fst (Promise_any newAggregateError w promises))"

text \<open>Stores used as examples: two pending promises, at addresses 0 and 1.\<close>

definition two_pending :: world where
  "two_pending = fst (deferred (fst (deferred empty_world)))"

text \<open>A pending promise at address 0, on which \<open>then()\<close> was called once, returning promise 1.\<close>

definition one_subscribed :: world where
  "one_subscribed = fst (then' (fst (deferred empty_world)) 0 NotAFunction NotAFunction)"

definition cycle_message :: string where
  "cycle_message = ''Chaining cycle detected for promise''"

text \<open>
  The store at the moment a foreign \<open>then\<close> starts to run inside \<open>resolvePromise\<close>: the member
  has been read, \<open>called\<close> is a new flag, still false.
\<close>

definition then_started :: "world \<Rightarrow> jsval \<Rightarrow> world" where
  "then_started w x =
     emit ((emit w (ReadThen x))\<lparr>guards := (guards w)(nextGuard w := False),
                                  nextGuard := Suc (nextGuard w)\<rparr>) (CallThen x)"

definition returns_promise_1 :: handler where
  "returns_promise_1 = User 7 (\<lambda>v. Inr (PromiseRef 1))"

definition cycle_world :: world where
  "cycle_world = resolve (fst (then' (fst (deferred empty_world)) 0 returns_promise_1 NotAFunction)) 0 (JNum 5)"

definition noisy_thenable :: jsval where
  "noisy_thenable =
     JObject (ThenFun [CallOnFulfill (JNum 1), CallOnReject (JNum 2), CallOnFulfill (JNum 3)]
                (Some (JStr ''boom'')))"

text \<open>The calls of user handlers in a record of events, oldest first: label and argument.\<close>

fun handler_calls :: "event list \<Rightarrow> (nat \<times> jsval) list" where
  "handler_calls [] = []"
| "handler_calls (CallHandler l v # es) = (l, v) # handler_calls es"
| "handler_calls (e # es) = handler_calls es"

text \<open>
  \<open>quiet w w'\<close>: from \<open>w\<close> to \<open>w'\<close> no user handler was called, and the microtask queue only
  grew at its end.
\<close>

definition quiet :: "world \<Rightarrow> world \<Rightarrow> bool" where
  "quiet w w' \<longleftrightarrow>
     handler_calls (log w') = handler_calls (log w) \<and>
     (\<exists>ts. microtasks w' = microtasks w @ ts)"

text \<open>Three calls of \<open>then\<close> on the same promise, one after the other.\<close>

definition chain3 ::
  "world \<Rightarrow> nat \<Rightarrow> handler \<times> handler \<Rightarrow> handler \<times> handler \<Rightarrow> handler \<times> handler \<Rightarrow> world" where
  "chain3 w this A B C =
     fst (then' (fst (then' (fst (then' w this (fst A) (snd A))) this (fst B) (snd B)))
            this (fst C) (snd C))"

text \<open>One pending promise, at address 0.\<close>

definition one_pending :: world where
  "one_pending = fst (deferred empty_world)"

fun task_targets :: "task \<Rightarrow> nat set" where
  "task_targets (OnFulfilledTask this h promise) = insert promise (set_option (handler_target h))"
| "task_targets (OnRejectedTask this h promise) = insert promise (set_option (handler_target h))"

text \<open>
  \<open>no_capability a w\<close>: no microtask in the queue and no callback stored in any promise
  would settle the promise \<open>a\<close>.
\<close>

definition no_capability :: "nat \<Rightarrow> world \<Rightarrow> bool" where
  "no_capability a w \<longleftrightarrow>
     (\<forall>t \<in> set (microtasks w). a \<notin> task_targets t) \<and>
     (\<forall>p. \<forall>th \<in> set (fulfilledCallbacks (heap w p)) \<union> set (rejectedCallbacks (heap w p)).
            a \<notin> task_targets (thunk_task th))"

text \<open>
  \<open>stays_pending a w w'\<close>: if in \<open>w\<close> the promise \<open>a\<close> exists, is pending and nothing would
  settle it, then the same holds in \<open>w'\<close>.
\<close>

definition stays_pending :: "nat \<Rightarrow> world \<Rightarrow> world \<Rightarrow> bool" where
  "stays_pending a w w' \<longleftrightarrow>
     (a < nextPromise w \<and> no_capability a w \<and> state (heap w a) = PEDDING \<longrightarrow>
      a < nextPromise w' \<and> no_capability a w' \<and> state (heap w' a) = PEDDING)"

text \<open>
  One step of a program that holds neither entry point of the promise \<open>a\<close>, nor a callback
  or a handler of the library that would settle it.
\<close>

inductive step_without :: "nat \<Rightarrow> world \<Rightarrow> world \<Rightarrow> bool" for a :: nat where
  without_resolve: "p \<noteq> a \<Longrightarrow> step_without a w (resolve w p v)"
| without_reject: "p \<noteq> a \<Longrightarrow> step_without a w (reject w p r)"
| without_callback: "callback_target cb \<noteq> a \<Longrightarrow> step_without a w (call_callback w cb v)"
| without_then: "handler_target onFulfilled \<noteq> Some a \<Longrightarrow> handler_target onRejected \<noteq> Some a \<Longrightarrow>
     step_without a w (fst (then' w p onFulfilled onRejected))"
| without_microtask: "step_without a w (run_microtask w)"
| without_new: "step_without a w (fst (new_Promise w executor))"
| without_deferred: "step_without a w (fst (deferred w))"
| without_Promise_resolve: "step_without a w (fst (Promise_resolve w v))"
| without_Promise_reject: "step_without a w (fst (Promise_reject w r))"
| without_all: "step_without a w (fst (Promise_all w promises))"
| without_race: "step_without a w (fst (Promise_race w promises))"
| without_allSettled: "step_without a w (fst (Promise_allSettled w promises))"
| without_any: "step_without a w (fst (Promise_any newAggregateError w promises))"

text \<open>Reading \<open>results[i]\<close>: a hole and an index past the end both read as nothing.\<close>

definition lookup :: "jsval option list \<Rightarrow> nat \<Rightarrow> jsval option" where
  "lookup xs i = (if i < length xs then xs ! i else None)"

text \<open>The number of positions of an array that hold a value.\<close>

definition stored_count :: "jsval option list \<Rightarrow> nat" where
  "stored_count xs = length (filter (\<lambda>x. x \<noteq> None) xs)"

text \<open>
  The addresses that the loop of a combinator uses when it starts with \<open>a\<close> as the next free
  address: for each input, the promise that \<open>this.resolve(p)\<close> returns (the input itself if
  it is a promise, a new promise otherwise) and the new promise that \<open>then\<close> returns.
\<close>

fun layout :: "nat \<Rightarrow> jsval list \<Rightarrow> (nat \<times> nat) list" where
  "layout a [] = []"
| "layout a (p # ps) =
     (case instance_of_Promise p of
        Some q \<Rightarrow> (q, a) # layout (Suc a) ps
      | None \<Rightarrow> (a, Suc a) # layout (Suc (Suc a)) ps)"

text \<open>
  The promises that stand for the inputs of a call of \<open>all\<close> in the store \<open>w\<close>: what
  \<open>this.resolve(p)\<close> returns for each. The result promise takes the first free address.
\<close>

definition normalised :: "world \<Rightarrow> jsval list \<Rightarrow> nat list" where
  "normalised w ps = map fst (layout (Suc (nextPromise w)) ps)"

text \<open>
  What \<open>this.resolve(p)\<close> throws: the static \<open>resolve\<close> reads the member \<open>then\<close> of an object
  that is not a promise outside any \<open>try\<close>, so a getter that throws makes it throw.
  \<open>thrown_by ps\<close> is what the first such input of a collection throws.
\<close>

fun throwing :: "jsval \<Rightarrow> jsval option" where
  "throwing p =
     (case instance_of_Promise p of
        Some q \<Rightarrow> None
      | None \<Rightarrow> if isObject p then (case get_then p of GetterThrows e \<Rightarrow> Some e | _ \<Rightarrow> None)
                else None)"

fun thrown_by :: "jsval list \<Rightarrow> jsval option" where
  "thrown_by [] = None"
| "thrown_by (p # ps) = (case throwing p of Some e \<Rightarrow> Some e | None \<Rightarrow> thrown_by ps)"

text \<open>The parts of a microtask: the promise it reads, the handler it calls and the promise
  that \<open>then\<close> returned, which it settles with the outcome of the handler.\<close>

fun task_this :: "task \<Rightarrow> nat" where
  "task_this (OnFulfilledTask this h promise) = this"
| "task_this (OnRejectedTask this h promise) = this"

fun task_handler :: "task \<Rightarrow> handler" where
  "task_handler (OnFulfilledTask this h promise) = h"
| "task_handler (OnRejectedTask this h promise) = h"

fun task_promise :: "task \<Rightarrow> nat" where
  "task_promise (OnFulfilledTask this h promise) = promise"
| "task_promise (OnRejectedTask this h promise) = promise"

fun on_fulfilled :: "task \<Rightarrow> bool" where
  "on_fulfilled (OnFulfilledTask this h promise) = True"
| "on_fulfilled (OnRejectedTask this h promise) = False"

text \<open>The cell of variables that a handler of a combinator writes to.\<close>

fun handler_cell :: "handler \<Rightarrow> nat option" where
  "handler_cell (AllFulfilled c i n promise) = Some c"
| "handler_cell (SettledFulfilled c i n promise) = Some c"
| "handler_cell (SettledRejected c i n promise) = Some c"
| "handler_cell (AnyRejected c i n promise) = Some c"
| "handler_cell h = None"

text \<open>
  A handler concerns a call of \<open>all\<close> with result promise \<open>r\<close> and variables in the cell \<open>c\<close>
  if it may settle \<open>r\<close> or write to \<open>c\<close>; a microtask is relevant to the call if its handler
  concerns it or if it settles \<open>r\<close> with the outcome of its handler.
\<close>

definition concerns :: "nat \<Rightarrow> nat \<Rightarrow> handler \<Rightarrow> bool" where
  "concerns r c h \<longleftrightarrow> handler_target h = Some r \<or> handler_cell h = Some c"

definition relevant :: "nat \<Rightarrow> nat \<Rightarrow> task \<Rightarrow> bool" where
  "relevant r c t \<longleftrightarrow> concerns r c (task_handler t) \<or> task_promise t = r"

text \<open>
  A store is well formed if the closures it holds, in the microtask queue and in the
  callbacks stored at any address, refer to promises and cells that exist. Every store
  that a program gets from the library is: a closure is made from what exists when it is
  made, and an address that is not in use holds no callback.
\<close>

definition closed_task :: "world \<Rightarrow> task \<Rightarrow> bool" where
  "closed_task w t \<longleftrightarrow>
     task_promise t < nextPromise w \<and>
     (\<forall>p \<in> set_option (handler_target (task_handler t)). p < nextPromise w) \<and>
     (\<forall>c \<in> set_option (handler_cell (task_handler t)). c < nextCell w)"

definition wellformed :: "world \<Rightarrow> bool" where
  "wellformed w \<longleftrightarrow>
     (\<forall>t \<in> set (microtasks w). closed_task w t) \<and>
     (\<forall>p. \<forall>th \<in> set (fulfilledCallbacks (heap w p)) \<union> set (rejectedCallbacks (heap w p)).
            closed_task w (thunk_task th))"

text \<open>
  One step of a program that runs after a call of \<open>all\<close> has returned the promise \<open>r\<close>, the
  variables \<open>total\<close> and \<open>results\<close> of the call being in the cell \<open>c\<close>: any step of a program
  that uses the library, as in \<open>step\<close>, with two exceptions. The program does not itself
  call \<open>r.resolve\<close> or \<open>r.reject\<close>, nor a callback that does: both are public fields of the
  object, and a caller of one of them decides the outcome of \<open>r\<close> in place of \<open>all\<close>. And it
  does not pass to \<open>then\<close> the arrows that \<open>all\<close> made over \<open>r\<close>, \<open>total\<close> and \<open>results\<close>: they
  are local to the call of \<open>all\<close>, which hands them to \<open>then\<close> and to nothing else. The
  program may settle the inputs and any other promise, subscribe to any promise, \<open>r\<close> and
  the inputs included, call the library in any way, \<open>all\<close> included, and let the scheduler
  run.
\<close>

inductive outside :: "nat \<Rightarrow> nat \<Rightarrow> world \<Rightarrow> world \<Rightarrow> bool" for r :: nat and c :: nat where
  outside_resolve: "p \<noteq> r \<Longrightarrow> outside r c w (resolve w p v)"
| outside_reject: "p \<noteq> r \<Longrightarrow> outside r c w (reject w p e)"
| outside_callback: "callback_target cb \<noteq> r \<Longrightarrow> outside r c w (call_callback w cb v)"
| outside_then: "\<not> concerns r c onFulfilled \<Longrightarrow> \<not> concerns r c onRejected \<Longrightarrow>
     outside r c w (fst (then' w p onFulfilled onRejected))"
| outside_microtask: "outside r c w (run_microtask w)"
| outside_new: "outside r c w (fst (new_Promise w executor))"
| outside_deferred: "outside r c w (fst (deferred w))"
| outside_Promise_resolve: "outside r c w (fst (Promise_resolve w v))"
| outside_Promise_reject: "outside r c w (fst (Promise_reject w e))"
| outside_all: "outside r c w (fst (Promise_all w promises))"
| outside_race: "outside r c w (fst (Promise_race w promises))"
| outside_allSettled: "outside r c w (fst (Promise_allSettled w promises))"
| outside_any: "outside r c w (fst (Promise_any newAggregateError w promises))"

text \<open>
  What the executor inside \<open>then\<close> does with the two microtasks it has made for the promise
  \<open>q\<close>: it queues the one that matches the state of \<open>q\<close>, or stores both as callbacks.
\<close>

definition subscribe :: "world \<Rightarrow> nat \<Rightarrow> task \<Rightarrow> task \<Rightarrow> world" where
  "subscribe w q tf tr =
     (case state (heap w q) of
        FULFILLED \<Rightarrow> w\<lparr>microtasks := microtasks w @ [tf]\<rparr>
      | REJECTED \<Rightarrow> w\<lparr>microtasks := microtasks w @ [tr]\<rparr>
      | PEDDING \<Rightarrow> w\<lparr>heap := (heap w)(q := (heap w q)
            \<lparr>fulfilledCallbacks := fulfilledCallbacks (heap w q) @ [QueueMicrotask tf],
             rejectedCallbacks := rejectedCallbacks (heap w q) @ [QueueMicrotask tr]\<rparr>)\<rparr>)"

text \<open>
  The subscriptions of a call of \<open>all\<close> with result promise \<open>r\<close>, variables in the cell \<open>c\<close>
  and \<open>n\<close> inputs, of which those at the indices below \<open>length qs\<close> have been given to
  \<open>then\<close>; \<open>qs\<close> are the promises that stand for them. The microtask of the subscription at
  index \<open>i\<close> for fulfilment, and the one for rejection:
\<close>

definition fulfilled_subscription :: "nat \<Rightarrow> nat \<Rightarrow> nat \<Rightarrow> nat list \<Rightarrow> nat \<Rightarrow> task \<Rightarrow> bool" where
  "fulfilled_subscription r c n qs i t \<longleftrightarrow>
     on_fulfilled t \<and> task_this t = qs ! i \<and> task_handler t = AllFulfilled c i n r \<and>
     task_promise t \<noteq> r"

definition rejected_subscription :: "nat \<Rightarrow> nat list \<Rightarrow> nat \<Rightarrow> task \<Rightarrow> bool" where
  "rejected_subscription r qs i t \<longleftrightarrow>
     \<not> on_fulfilled t \<and> task_this t = qs ! i \<and> task_handler t = EntryReject r \<and>
     task_promise t \<noteq> r"

text \<open>The result promise, the cell and the inputs exist, and \<open>r\<close> is not an input.\<close>

definition bounds_ok :: "nat \<Rightarrow> nat \<Rightarrow> nat \<Rightarrow> nat list \<Rightarrow> world \<Rightarrow> bool" where
  "bounds_ok r c n qs w \<longleftrightarrow>
     length qs \<le> n \<and> r < nextPromise w \<and> c < nextCell w \<and>
     (\<forall>q \<in> set qs. q < nextPromise w \<and> q \<noteq> r)"

text \<open>
  The counter is the number of values stored, and a value is stored at an index only if
  the input at that index is fulfilled, with that value.
\<close>

definition cell_ok :: "nat \<Rightarrow> nat list \<Rightarrow> world \<Rightarrow> bool" where
  "cell_ok c qs w \<longleftrightarrow>
     total (cells w c) = stored_count (results (cells w c)) \<and>
     length (results (cells w c)) \<le> length qs \<and>
     (\<forall>i < length qs. \<forall>v. lookup (results (cells w c)) i = Some v \<longrightarrow>
        state (heap w (qs ! i)) = FULFILLED \<and> v = value' (heap w (qs ! i)))"

text \<open>
  Every microtask in the queue that is relevant to the call is the microtask of one of its
  subscriptions, for fulfilment on an input that is fulfilled and whose value is not stored
  yet, or for rejection on an input that is rejected; and the microtask for fulfilment of
  such an input is in the queue exactly once.
\<close>

definition queue_ok :: "nat \<Rightarrow> nat \<Rightarrow> nat \<Rightarrow> nat list \<Rightarrow> world \<Rightarrow> bool" where
  "queue_ok r c n qs w \<longleftrightarrow>
     (\<forall>t \<in> set (microtasks w). relevant r c t \<longrightarrow>
        (\<exists>i < length qs.
           fulfilled_subscription r c n qs i t \<and> state (heap w (qs ! i)) = FULFILLED \<and>
             lookup (results (cells w c)) i = None \<or>
           rejected_subscription r qs i t \<and> state (heap w (qs ! i)) = REJECTED)) \<and>
     (\<forall>i < length qs.
        state (heap w (qs ! i)) = FULFILLED \<and> lookup (results (cells w c)) i = None \<longrightarrow>
        length (filter (\<lambda>t. task_handler t = AllFulfilled c i n r) (microtasks w)) = 1)"

text \<open>
  Every callback of a pending promise that is relevant to the call is the callback of one
  of its subscriptions on that promise; and a pending input holds the callback for
  fulfilment of each of its indices exactly once, and a callback for rejection.
\<close>

definition waiting_ok :: "nat \<Rightarrow> nat \<Rightarrow> nat \<Rightarrow> nat list \<Rightarrow> world \<Rightarrow> bool" where
  "waiting_ok r c n qs w \<longleftrightarrow>
     (\<forall>p. state (heap w p) = PEDDING \<longrightarrow>
        (\<forall>th \<in> set (fulfilledCallbacks (heap w p)). relevant r c (thunk_task th) \<longrightarrow>
           (\<exists>i < length qs. qs ! i = p \<and> fulfilled_subscription r c n qs i (thunk_task th))) \<and>
        (\<forall>th \<in> set (rejectedCallbacks (heap w p)). relevant r c (thunk_task th) \<longrightarrow>
           (\<exists>i < length qs. qs ! i = p \<and> rejected_subscription r qs i (thunk_task th)))) \<and>
     (\<forall>i < length qs. state (heap w (qs ! i)) = PEDDING \<longrightarrow>
        length (filter (\<lambda>th. task_handler (thunk_task th) = AllFulfilled c i n r)
                  (fulfilledCallbacks (heap w (qs ! i)))) = 1 \<and>
        (\<exists>th \<in> set (rejectedCallbacks (heap w (qs ! i))).
           task_handler (thunk_task th) = EntryReject r))"

text \<open>
  The result promise: while it is pending, fewer than \<open>n\<close> values are stored and, if an
  input is rejected, the microtask of a subscription for rejection is in the queue; if it is
  fulfilled, \<open>n\<close> values are stored and its value is the array; if it is rejected, its
  reason is the reason of a rejected input.
\<close>

definition result_ok :: "nat \<Rightarrow> nat \<Rightarrow> nat \<Rightarrow> nat list \<Rightarrow> world \<Rightarrow> bool" where
  "result_ok r c n qs w \<longleftrightarrow>
     (state (heap w r) = PEDDING \<longrightarrow>
        stored_count (results (cells w c)) < n \<and>
        ((\<exists>i < length qs. state (heap w (qs ! i)) = REJECTED) \<longrightarrow>
         (\<exists>t \<in> set (microtasks w). task_handler t = EntryReject r))) \<and>
     (state (heap w r) = FULFILLED \<longrightarrow>
        stored_count (results (cells w c)) = n \<and> value' (heap w r) = ArrayRef c) \<and>
     (state (heap w r) = REJECTED \<longrightarrow>
        (\<exists>i < length qs. state (heap w (qs ! i)) = REJECTED \<and>
                          reason (heap w r) = reason (heap w (qs ! i))))"

definition subscribed :: "nat \<Rightarrow> nat \<Rightarrow> nat \<Rightarrow> nat list \<Rightarrow> world \<Rightarrow> bool" where
  "subscribed r c n qs w \<longleftrightarrow>
     bounds_ok r c n qs w \<and> cell_ok c qs w \<and> queue_ok r c n qs w \<and> waiting_ok r c n qs w"

definition joined :: "nat \<Rightarrow> nat \<Rightarrow> nat \<Rightarrow> nat list \<Rightarrow> world \<Rightarrow> bool" where
  "joined r c n qs w \<longleftrightarrow> subscribed r c n qs w \<and> result_ok r c n qs w"

text \<open>\<open>keeps r c n qs w w'\<close>: if the subscriptions are as described in \<open>w\<close>, they are in \<open>w'\<close>.\<close>

definition keeps :: "nat \<Rightarrow> nat \<Rightarrow> nat \<Rightarrow> nat list \<Rightarrow> world \<Rightarrow> world \<Rightarrow> bool" where
  "keeps r c n qs w w' \<longleftrightarrow> (joined r c n qs w \<longrightarrow> joined r c n qs w')"

text \<open>
  Stores used as examples. The inputs of the example of the specification: a promise
  fulfilled with \<open>1\<close>, one rejected with \<open>'e'\<close> and one that stays pending, at the addresses
  0, 1 and 2; \<open>spec_call\<close> is the store after \<open>all\<close> on the three.
\<close>

definition spec_inputs :: world where
  "spec_inputs =
     fst (deferred (fst (Promise_reject (fst (Promise_resolve empty_world (JNum 1))) (JStr ''e''))))"

definition spec_call :: world where
  "spec_call = fst (Promise_all spec_inputs (Iterable [PromiseRef 0, PromiseRef 1, PromiseRef 2]))"

text \<open>
  A store in which work is under way: the promises 0 and 1 are pending, promise 2 is
  fulfilled with \<open>7\<close>; \<open>then()\<close> was called on promise 2, so that its microtask waits in the
  queue, and on promise 0, which holds the two callbacks. \<open>busy_call\<close> is the store after
  \<open>all([p0, p1, p0])\<close>; in \<open>busy_half\<close> the program has fulfilled \<open>p1\<close> with \<open>'c'\<close> and the
  scheduler has run twice; in \<open>busy_done\<close> it has then fulfilled \<open>p0\<close> with \<open>'a'\<close> and the
  scheduler has run three times.
\<close>

definition busy_inputs :: world where
  "busy_inputs =
     fst (then' (fst (then' (fst (Promise_resolve two_pending (JNum 7))) 2 NotAFunction NotAFunction))
            0 NotAFunction NotAFunction)"

definition busy_call :: world where
  "busy_call = fst (Promise_all busy_inputs (Iterable [PromiseRef 0, PromiseRef 1, PromiseRef 0]))"

definition busy_half :: world where
  "busy_half = run_microtask (run_microtask (resolve busy_call 1 (JStr ''c'')))"

definition busy_done :: world where
  "busy_done = run_microtask (run_microtask (run_microtask (resolve busy_half 0 (JStr ''a''))))"

text \<open>A promise rejected with \<open>'a'\<close> and one fulfilled with \<open>2\<close>, at the addresses 0 and 1.\<close>

definition rejected_and_fulfilled :: world where
  "rejected_and_fulfilled =
     fst (Promise_resolve (fst (Promise_reject empty_world (JStr ''a''))) (JNum 2))"

section \<open>Settlement and chaining, in closed form\<close>

lemma drainFulfilled_eq:
  "drainFulfilled w p =
     w\<lparr>heap := (heap w)(p := (heap w p)\<lparr>fulfilledCallbacks := []\<rparr>),
       microtasks := microtasks w @ map thunk_task (fulfilledCallbacks (heap w p))\<rparr>"
proof (induction "fulfilledCallbacks (heap w p)" arbitrary: w)
  case Nil
  then have e: "(heap w p)\<lparr>fulfilledCallbacks := []\<rparr> = heap w p" by simp
  show ?case by (simp add: drainFulfilled.simps[of w p] Nil[symmetric] e)
next
  case (Cons th rest)
  let ?w1 = "call_thunk (upd w p (\<lambda>ob. ob\<lparr>fulfilledCallbacks := rest\<rparr>)) th"
  have r: "rest = fulfilledCallbacks (heap ?w1 p)"
    by (cases th) (simp add: upd_def queueMicrotask_def)
  have "drainFulfilled w p = drainFulfilled ?w1 p"
    using Cons.hyps(2)[symmetric] by simp
  also have "\<dots> = ?w1\<lparr>heap := (heap ?w1)(p := (heap ?w1 p)\<lparr>fulfilledCallbacks := []\<rparr>),
       microtasks := microtasks ?w1 @ map thunk_task (fulfilledCallbacks (heap ?w1 p))\<rparr>"
    by (rule Cons.hyps(1)[OF r])
  also have "\<dots> = w\<lparr>heap := (heap w)(p := (heap w p)\<lparr>fulfilledCallbacks := []\<rparr>),
       microtasks := microtasks w @ map thunk_task (fulfilledCallbacks (heap w p))\<rparr>"
    using Cons.hyps(2)[symmetric] by (cases th) (simp add: upd_def queueMicrotask_def)
  finally show ?case .
qed

lemma drainRejected_eq:
  "drainRejected w p =
     w\<lparr>heap := (heap w)(p := (heap w p)\<lparr>rejectedCallbacks := []\<rparr>),
       microtasks := microtasks w @ map thunk_task (rejectedCallbacks (heap w p))\<rparr>"
proof (induction "rejectedCallbacks (heap w p)" arbitrary: w)
  case Nil
  then have e: "(heap w p)\<lparr>rejectedCallbacks := []\<rparr> = heap w p" by simp
  show ?case by (simp add: drainRejected.simps[of w p] Nil[symmetric] e)
next
  case (Cons th rest)
  let ?w1 = "call_thunk (upd w p (\<lambda>ob. ob\<lparr>rejectedCallbacks := rest\<rparr>)) th"
  have r: "rest = rejectedCallbacks (heap ?w1 p)"
    by (cases th) (simp add: upd_def queueMicrotask_def)
  have "drainRejected w p = drainRejected ?w1 p"
    using Cons.hyps(2)[symmetric] by simp
  also have "\<dots> = ?w1\<lparr>heap := (heap ?w1)(p := (heap ?w1 p)\<lparr>rejectedCallbacks := []\<rparr>),
       microtasks := microtasks ?w1 @ map thunk_task (rejectedCallbacks (heap ?w1 p))\<rparr>"
    by (rule Cons.hyps(1)[OF r])
  also have "\<dots> = w\<lparr>heap := (heap w)(p := (heap w p)\<lparr>rejectedCallbacks := []\<rparr>),
       microtasks := microtasks w @ map thunk_task (rejectedCallbacks (heap w p))\<rparr>"
    using Cons.hyps(2)[symmetric] by (cases th) (simp add: upd_def queueMicrotask_def)
  finally show ?case .
qed

declare drainFulfilled.simps [simp del] drainRejected.simps [simp del]

lemma resolve_eq:
  "resolve w p v =
     (if state (heap w p) = PEDDING
      then w\<lparr>heap := (heap w)(p := (heap w p)\<lparr>value' := v, state := FULFILLED, fulfilledCallbacks := []\<rparr>),
             microtasks := microtasks w @ map thunk_task (fulfilledCallbacks (heap w p))\<rparr>
      else w)"
  by (simp add: resolve_def drainFulfilled_eq upd_def)

lemma reject_eq:
  "reject w p r =
     (if state (heap w p) = PEDDING
      then w\<lparr>heap := (heap w)(p := (heap w p)\<lparr>reason := r, state := REJECTED, rejectedCallbacks := []\<rparr>),
             microtasks := microtasks w @ map thunk_task (rejectedCallbacks (heap w p))\<rparr>
      else w)"
  by (simp add: reject_def drainRejected_eq upd_def)

lemma then_eq:
  "then' w this onFulfilled onRejected =
    (let f = (case onFulfilled of NotAFunction \<Rightarrow> PassValue | _ \<Rightarrow> onFulfilled);
         r = (case onRejected of NotAFunction \<Rightarrow> ThrowReason | _ \<Rightarrow> onRejected);
         promise = nextPromise w;
         w1 = w\<lparr>heap := (heap w)(promise := initValue), nextPromise := Suc promise\<rparr>
     in (case state (heap w1 this) of
           FULFILLED \<Rightarrow> w1\<lparr>microtasks := microtasks w @ [OnFulfilledTask this f promise]\<rparr>
         | REJECTED \<Rightarrow> w1\<lparr>microtasks := microtasks w @ [OnRejectedTask this r promise]\<rparr>
         | PEDDING \<Rightarrow> w1\<lparr>heap := (heap w1)(this := (heap w1 this)
               \<lparr>fulfilledCallbacks := fulfilledCallbacks (heap w1 this) @ [QueueMicrotask (OnFulfilledTask this f promise)],
                rejectedCallbacks := rejectedCallbacks (heap w1 this) @ [QueueMicrotask (OnRejectedTask this r promise)]\<rparr>)\<rparr>,
         promise))"
  by (simp add: then'_def construct_def alloc_def Let_def upd_def queueMicrotask_def split: pstate.splits)

section \<open>A relation kept by every step\<close>

text \<open>
  Any relation between stores that is reflexive and transitive and that the primitive
  effects of the resolution procedure respect, for targets in \<open>T\<close>, holds between the store
  before and after \<open>resolvePromise\<close>, a callback and a foreign function.
\<close>

lemma resolution_rel:
  fixes R :: "world \<Rightarrow> world \<Rightarrow> bool" and T :: "nat \<Rightarrow> bool"
  assumes rfl: "\<And>w. R w w"
    and trs: "\<And>a b c. R a b \<Longrightarrow> R b c \<Longrightarrow> R a c"
    and res: "\<And>w p v. T p \<Longrightarrow> R w (resolve w p v)"
    and rej: "\<And>w p v. T p \<Longrightarrow> R w (reject w p v)"
    and thn: "\<And>w q p. T p \<Longrightarrow> R w (fst (then' w q (ResolveInto p) (EntryReject p)))"
    and emt: "\<And>w x. R w (emit w (ReadThen x))"
    and emc: "\<And>w x. R w (emit w (CallThen x))"
    and grd: "\<And>w b. R w (w\<lparr>guards := (guards w)(nextGuard w := b), nextGuard := Suc (nextGuard w)\<rparr>)"
    and set: "\<And>w g. R w (w\<lparr>guards := (guards w)(g := True)\<rparr>)"
  shows "T promise \<Longrightarrow> R w (resolvePromise w promise x)"
    and "T (callback_target cb) \<Longrightarrow> R w (call_callback w cb v)"
    and "T (callback_target f) \<Longrightarrow> T (callback_target r) \<Longrightarrow> R w (call_fun w f r calls)"
proof (induction w promise x and w cb v and w f r calls rule: resolvePromise_call_callback_call_fun.induct)
  case (1 w promise x)
  show ?case
  proof (cases "x = PromiseRef promise")
    case True
    then show ?thesis by (subst resolvePromise.simps) (simp add: rej 1)
  next
    case ne: False
    show ?thesis
    proof (cases "instance_of_Promise x")
      case (Some xp)
      then show ?thesis using ne by (subst resolvePromise.simps) (simp add: thn 1)
    next
      case np: None
      show ?thesis
      proof (cases "isObject x \<or> isFunction x")
        case False
        then show ?thesis using ne np 1(2)
          by (subst resolvePromise.simps) (simp add: res)
      next
        case ob: True
        show ?thesis
        proof (cases "get_then x")
          case NotCallable
          have "R w (resolve (emit w (ReadThen x)) promise x)"
            by (rule trs[OF emt res[OF 1(2)]])
          then show ?thesis using ne np ob NotCallable
            by (subst resolvePromise.simps) simp
        next
          case (GetterThrows e)
          have "R w (reject (emit w (ReadThen x)) promise e)"
            by (rule trs[OF emt rej[OF 1(2)]])
          then show ?thesis using ne np ob GetterThrows
            by (subst resolvePromise.simps) simp
        next
          case (ThenFun calls thrown)
          define w1 where "w1 = emit w (ReadThen x)"
          define called where "called = nextGuard w1"
          define w2 where "w2 = w1\<lparr>guards := (guards w1)(called := False), nextGuard := Suc called\<rparr>"
          define w3 where "w3 = call_fun (emit w2 (CallThen x))
                           (GuardedFulfill called promise) (GuardedReject called promise) calls"
          have a: "R w w1" unfolding w1_def by (rule emt)
          have b: "R w1 w2" unfolding w2_def called_def by (rule grd)
          have c: "R w2 (emit w2 (CallThen x))" by (rule emc)
          have d: "R (emit w2 (CallThen x)) w3"
            unfolding w3_def
            by (rule 1(1)[OF ne np ob ThenFun w1_def called_def w2_def]) (simp_all add: 1(2))
          have w3: "R w w3" using a b c d trs by blast
          have e: "R w (reject (w3\<lparr>guards := (guards w3)(called := True)\<rparr>) promise err)" for err
            using w3 set rej[OF 1(2)] trs by blast
          have eq: "resolvePromise w promise x =
             (case thrown of None \<Rightarrow> w3
              | Some error \<Rightarrow> if guards w3 called then w3
                  else reject (w3\<lparr>guards := (guards w3)(called := True)\<rparr>) promise error)"
            using ne np ob ThenFun
            by (subst resolvePromise.simps) (simp add: Let_def w1_def w2_def w3_def called_def split: option.splits)
          show ?thesis unfolding eq using w3 e by (simp split: option.splits)
        qed
      qed
    qed
  qed
next
  case (2 w called promise y)
  show ?case
  proof (cases "guards w called")
    case True
    then show ?thesis by (simp add: rfl)
  next
    case False
    have "R (w\<lparr>guards := (guards w)(called := True)\<rparr>)
            (resolvePromise (w\<lparr>guards := (guards w)(called := True)\<rparr>) promise y)"
      using 2 False by simp
    then show ?thesis using False trs[OF set] by simp
  qed
next
  case (3 w called promise r)
  show ?case
  proof (cases "guards w called")
    case True
    then show ?thesis by (simp add: rfl)
  next
    case False
    then show ?thesis using trs[OF set rej] 3 by simp
  qed
next
  case (4 w promise v)
  then show ?case using res by simp
next
  case (5 w promise r)
  then show ?case using rej by simp
next
  case (6 w onFulfill onReject)
  then show ?case using rfl by simp
next
  case (7 w onFulfill onReject y calls)
  have "R w (call_callback w onFulfill y)" using 7 by simp
  moreover have "R (call_callback w onFulfill y)
                   (call_fun (call_callback w onFulfill y) onFulfill onReject calls)"
    using 7 by simp
  ultimately show ?case using trs by simp
next
  case (8 w onFulfill onReject r calls)
  have "R w (call_callback w onReject r)" using 8 by simp
  moreover have "R (call_callback w onReject r)
                   (call_fun (call_callback w onReject r) onFulfill onReject calls)"
    using 8 by simp
  ultimately show ?case using trs by simp
qed

lemma extends_refl: "extends w w"
  by (simp add: extends_def)

lemma extends_trans: "extends a b \<Longrightarrow> extends b c \<Longrightarrow> extends a c"
  unfolding extends_def
  by (metis (no_types, lifting) le_trans less_le_trans)

lemma extends_resolve: "extends w (resolve w p v)"
  by (simp add: extends_def resolve_eq)

lemma extends_reject: "extends w (reject w p v)"
  by (simp add: extends_def reject_eq)

lemma extends_then: "extends w (fst (then' w q h1 h2))"
  by (auto simp add: extends_def then_eq Let_def split: pstate.splits)

lemma extends_emit: "extends w (emit w e)"
  by (simp add: extends_def emit_def)

lemma extends_new_guard:
  "extends w (w\<lparr>guards := (guards w)(nextGuard w := b), nextGuard := Suc (nextGuard w)\<rparr>)"
  by (simp add: extends_def)

lemma extends_set_guard: "extends w (w\<lparr>guards := (guards w)(g := True)\<rparr>)"
  by (simp add: extends_def)

lemmas extends_prims = extends_refl extends_resolve extends_reject extends_then extends_emit
  extends_new_guard extends_set_guard

lemma extends_resolution:
  "extends w (resolvePromise w promise x)"
  "extends w (call_callback w cb v)"
  "extends w (call_fun w f r calls)"
  by (rule resolution_rel[where R = extends and T = "\<lambda>p. True"];
      (rule extends_prims | erule (1) extends_trans | simp))+

lemma extends_cells: "extends w (w\<lparr>cells := f\<rparr>)"
  by (simp add: extends_def)

lemma store_and_count_eq:
  "store_and_count w c i v n settle =
     (if Suc (total (cells w c)) = n
      then settle (w\<lparr>cells := (cells w)(c := (cells w c)
              \<lparr>results := array_set (results (cells w c)) i v, total := Suc (total (cells w c))\<rparr>)\<rparr>)
      else w\<lparr>cells := (cells w)(c := (cells w c)
              \<lparr>results := array_set (results (cells w c)) i v, total := Suc (total (cells w c))\<rparr>)\<rparr>)"
  by (simp add: store_and_count_def Let_def)

lemma extends_store_and_count:
  assumes "\<And>w. extends w (settle w)"
  shows "extends w (store_and_count w c i v n settle)"
  unfolding store_and_count_eq
  using extends_cells extends_trans[OF extends_cells assms] by simp

lemma extends_call_handler: "extends w (fst (call_handler w h v))"
  by (cases h) (simp_all add: extends_prims extends_resolution extends_store_and_count)

lemma extends_run_task: "extends w (run_task w t)"
proof (cases t)
  case (OnFulfilledTask this h promise)
  obtain w1 res where c: "call_handler w h (value' (heap w this)) = (w1, res)"
    by (cases "call_handler w h (value' (heap w this))")
  have "extends w w1" using extends_call_handler[of w h "value' (heap w this)"] c by simp
  then show ?thesis using OnFulfilledTask c
    by (cases res) (auto intro: extends_trans extends_reject extends_resolution)
next
  case (OnRejectedTask this h promise)
  obtain w1 res where c: "call_handler w h (reason (heap w this)) = (w1, res)"
    by (cases "call_handler w h (reason (heap w this))")
  have "extends w w1" using extends_call_handler[of w h "reason (heap w this)"] c by simp
  then show ?thesis using OnRejectedTask c
    by (cases res) (auto intro: extends_trans extends_reject extends_resolution)
qed

lemma extends_microtasks: "extends w (w\<lparr>microtasks := ts\<rparr>)"
  by (simp add: extends_def)

lemma extends_run_microtask: "extends w (run_microtask w)"
  unfolding run_microtask_def
  by (auto split: list.splits intro: extends_refl extends_trans[OF extends_microtasks extends_run_task])

lemma extends_run_microtasks: "extends w (run_microtasks n w)"
  by (induction n arbitrary: w) (auto intro: extends_refl extends_trans[OF extends_run_microtask])

lemma extends_alloc: "extends w (fst (alloc w))"
  by (simp add: extends_def alloc_def)

lemma extends_construct:
  assumes "\<And>w1 this. extends w1 (fst (executor w1 this))"
  shows "extends w (fst (construct w executor))"
proof -
  obtain w1 this where a: "alloc w = (w1, this)" by (cases "alloc w")
  obtain w2 thrown where e: "executor w1 this = (w2, thrown)" by (cases "executor w1 this")
  have 1: "extends w w1" using extends_alloc[of w] a by simp
  have 2: "extends w1 w2" using assms[of w1 this] e by simp
  show ?thesis using a e extends_trans[OF 1 2] extends_trans[OF extends_trans[OF 1 2] extends_reject]
    by (simp add: construct_def split: option.splits)
qed

lemma extends_new_Promise: "extends w (fst (new_Promise w executor))"
proof (cases executor)
  case NotAnExecutor
  then show ?thesis by (simp add: new_Promise_def extends_refl)
next
  case (Executor calls thrown)
  have "extends w (fst (construct w (\<lambda>w1 this. (call_fun w1 (Resolve this) (Reject this) calls, thrown))))"
    by (rule extends_construct) (simp add: extends_resolution)
  then show ?thesis using Executor by (simp add: new_Promise_def case_prod_beta)
qed

lemma extends_deferred: "extends w (fst (deferred w))"
  unfolding deferred_def by (rule extends_construct) (simp add: extends_refl)

lemma extends_Promise_reject: "extends w (fst (Promise_reject w r))"
  unfolding Promise_reject_def by (rule extends_construct) (simp add: extends_reject)

lemma extends_Promise_resolve: "extends w (fst (Promise_resolve w v))"
proof -
  have 1: "extends w (fst (construct w (\<lambda>w1 this. (resolve w1 this v, None))))"
    by (rule extends_construct) (simp add: extends_resolve)
  have 2: "extends w (fst (construct (emit w (ReadThen v)) (\<lambda>w1 this. (resolve w1 this v, None))))"
    by (rule extends_trans[OF extends_emit], rule extends_construct) (simp add: extends_resolve)
  have 3: "extends w (fst (construct (emit w (ReadThen v)) (\<lambda>w1 this.
                       (call_fun (emit (emit w1 (ReadThen v)) (CallThen v))
                          (Resolve this) (Reject this) calls, thrown))))" for calls thrown
    by (rule extends_trans[OF extends_emit], rule extends_construct)
       (simp add: extends_trans[OF extends_emit extends_trans[OF extends_emit extends_resolution(3)]])
  show ?thesis using 1 2 3
    by (simp add: Promise_resolve_def extends_refl extends_emit
             case_prod_beta split: option.splits then_member.splits)
qed

lemma extends_forEach_then: "extends w (fst (forEach_then hs w i ps))"
proof (induction ps arbitrary: w i)
  case Nil
  then show ?case by (simp add: extends_refl)
next
  case (Cons p ps)
  obtain w1 res where r: "Promise_resolve w p = (w1, res)" by (cases "Promise_resolve w p")
  have 1: "extends w w1" using extends_Promise_resolve[of w p] r by simp
  show ?case
  proof (cases res)
    case (Inl e)
    then show ?thesis using r 1 by simp
  next
    case (Inr q)
    then show ?thesis using r
      by (simp add: extends_trans[OF 1 extends_trans[OF extends_then Cons.IH]])
  qed
qed

lemma extends_new_cell: "extends w (fst (new_cell w))"
  by (simp add: new_cell_def extends_def)

lemma extends_combinator:
  "extends w (fst (construct w (\<lambda>w2 this. forEach_then (hs this) w2 0 ps)))"
  by (rule extends_construct) (rule extends_forEach_then)

lemma extends_Promise_all: "extends w (fst (Promise_all w promises))"
proof (cases promises)
  case NotIterable
  then show ?thesis by (simp add: Promise_all_def extends_refl)
next
  case (Iterable ps)
  obtain w1 c where n: "new_cell w = (w1, c)" by (cases "new_cell w")
  have 1: "extends w w1" using extends_new_cell[of w] n by simp
  show ?thesis using Iterable n
    extends_trans[OF 1 extends_Promise_resolve]
    extends_trans[OF 1 extends_combinator[where hs = "\<lambda>this i. (AllFulfilled c i (length ps) this, EntryReject this)"]]
    by (simp add: Promise_all_def case_prod_beta)
qed

lemma extends_Promise_allSettled: "extends w (fst (Promise_allSettled w promises))"
proof (cases promises)
  case NotIterable
  then show ?thesis by (simp add: Promise_allSettled_def extends_refl)
next
  case (Iterable ps)
  obtain w1 c where n: "new_cell w = (w1, c)" by (cases "new_cell w")
  have 1: "extends w w1" using extends_new_cell[of w] n by simp
  show ?thesis using Iterable n
    extends_trans[OF 1 extends_Promise_resolve]
    extends_trans[OF 1 extends_combinator[where hs = "\<lambda>this i. (SettledFulfilled c i (length ps) this, SettledRejected c i (length ps) this)"]]
    by (simp add: Promise_allSettled_def case_prod_beta)
qed

lemma extends_Promise_race: "extends w (fst (Promise_race w promises))"
proof (cases promises)
  case NotIterable
  then show ?thesis by (simp add: Promise_race_def extends_refl)
next
  case (Iterable ps)
  show ?thesis using Iterable
    extends_combinator[where hs = "\<lambda>this i. (EntryResolve this, EntryReject this)"]
    by (simp add: Promise_race_def case_prod_beta)
qed

lemma extends_Promise_any: "extends w (fst (Promise_any host w promises))"
proof (cases promises)
  case NotIterable
  then show ?thesis by (simp add: Promise_any_def extends_refl)
next
  case (Iterable ps)
  show ?thesis
  proof (cases host)
    case (ConstructorThrows e)
    then show ?thesis using Iterable by (simp add: Promise_any_def extends_refl)
  next
    case ReturnsEmptyAggregate
    obtain w1 c where n: "new_cell w = (w1, c)" by (cases "new_cell w")
    have 1: "extends w w1" using extends_new_cell[of w] n by simp
    show ?thesis using Iterable ReturnsEmptyAggregate n
      extends_trans[OF 1 extends_Promise_reject]
      extends_trans[OF 1 extends_combinator[where hs = "\<lambda>this i. (EntryResolve this, AnyRejected c i (length ps) this)"]]
      by (simp add: Promise_any_def case_prod_beta)
  qed
qed

lemma step_extends: "step w w' \<Longrightarrow> extends w w'"
  by (induction rule: step.induct)
     (simp_all add: extends_prims extends_resolution extends_run_microtask extends_new_Promise
        extends_deferred extends_Promise_resolve extends_Promise_reject extends_Promise_all
        extends_Promise_race extends_Promise_allSettled extends_Promise_any)

lemma steps_extends: "step\<^sup>*\<^sup>* w w' \<Longrightarrow> extends w w'"
  by (induction rule: rtranclp_induct) (auto intro: extends_refl extends_trans step_extends)

lemma deferred_eq:
  "deferred w = (w\<lparr>heap := (heap w)(nextPromise w := initValue),
                    nextPromise := Suc (nextPromise w)\<rparr>, nextPromise w)"
  by (simp add: deferred_def construct_def alloc_def)

lemmas world_simps = empty_world_def initValue_def deferred_eq then_eq resolve_eq reject_eq
  emit_def queueMicrotask_def run_microtask_def Let_def

section \<open>The settlement entry points\<close>

text \<open>
  C1, amended. On a pending promise, \<open>resolve(x)\<close> does not run the resolution procedure:
  whatever \<open>x\<close> is, also a promise or a thenable, the promise is fulfilled at once with \<open>x\<close>
  itself as its value; no other promise is touched (so nothing subscribes to \<open>x\<close>), no
  \<open>then\<close> member is read or called, no flag or promise is created, and the stored fulfilled
  callbacks are called in order, each queuing its microtask.
\<close>

theorem resolve_fulfils_at_once:
  assumes "state (heap w p) = PEDDING"
  shows "state (heap (resolve w p x) p) = FULFILLED
       \<and> value' (heap (resolve w p x) p) = x
       \<and> (\<forall>q. q \<noteq> p \<longrightarrow> heap (resolve w p x) q = heap w q)
       \<and> log (resolve w p x) = log w
       \<and> guards (resolve w p x) = guards w
       \<and> nextPromise (resolve w p x) = nextPromise w
       \<and> microtasks (resolve w p x) = microtasks w @ map thunk_task (fulfilledCallbacks (heap w p))"
  using assms by (simp add: resolve_eq)

theorem resolve_fulfils_at_once_witness:
  "state (heap two_pending 0) = PEDDING
   \<and> state (heap (resolve two_pending 0 (JObject (ThenFun [CallOnReject (JNum 1)] None))) 0) = FULFILLED
   \<and> value' (heap (resolve two_pending 0 (JObject (ThenFun [CallOnReject (JNum 1)] None))) 0)
        = JObject (ThenFun [CallOnReject (JNum 1)] None)
   \<and> log (resolve two_pending 0 (JObject (ThenFun [CallOnReject (JNum 1)] None))) = []"
proof -
  have h: "state (heap two_pending 0) = PEDDING"
    by (simp add: two_pending_def world_simps)
  have l: "log two_pending = []"
    by (simp add: two_pending_def world_simps)
  show ?thesis
    using h l resolve_fulfils_at_once[OF h, of "JObject (ThenFun [CallOnReject (JNum 1)] None)"]
    by simp
qed

text \<open>
  C1 as stated fails: fulfilling promise 0 with the pending promise 1 fulfils promise 0 at
  once with promise 1 as value and subscribes nothing to promise 1, where the resolution
  procedure would have left promise 0 pending.
\<close>

theorem resolve_with_promise_counterexample:
  "state (heap (resolve two_pending 0 (PromiseRef 1)) 0) = FULFILLED
   \<and> value' (heap (resolve two_pending 0 (PromiseRef 1)) 0) = PromiseRef 1
   \<and> state (heap (resolve two_pending 0 (PromiseRef 1)) 1) = PEDDING
   \<and> fulfilledCallbacks (heap (resolve two_pending 0 (PromiseRef 1)) 1) = []
   \<and> state (heap (resolvePromise two_pending 0 (PromiseRef 1)) 0) = PEDDING"
  by (simp add: two_pending_def world_simps resolvePromise.simps)

lemma settled_kept:
  assumes "step\<^sup>*\<^sup>* w w'" and "p < nextPromise w" and "state (heap w p) \<noteq> PEDDING"
  shows "heap w' p = heap w p"
  using steps_extends[OF assms(1)] assms(2,3) by (simp add: extends_def)

text \<open>
  C2. On a promise that is fulfilled or rejected, \<open>resolve\<close> and \<open>reject\<close> with any payload
  change nothing at all in the store; and through any further steps of a program using the
  library, the state, the value and the reason of that promise stay what they are.
\<close>

theorem settled_state_is_final:
  assumes "state (heap w p) \<noteq> PEDDING"
  shows "resolve w p x = w \<and> reject w p r = w
       \<and> (p < nextPromise w \<longrightarrow> step\<^sup>*\<^sup>* w w' \<longrightarrow>
            state (heap w' p) = state (heap w p)
          \<and> value' (heap w' p) = value' (heap w p)
          \<and> reason (heap w' p) = reason (heap w p))"
  using assms settled_kept[of w w' p] by (simp add: resolve_eq reject_eq)

theorem settled_state_is_final_witness:
  "state (heap (resolve two_pending 0 (JNum 1)) 0) \<noteq> PEDDING
   \<and> resolve (resolve two_pending 0 (JNum 1)) 0 (JNum 2) = resolve two_pending 0 (JNum 1)
   \<and> reject (resolve two_pending 0 (JNum 1)) 0 (JStr ''late'') = resolve two_pending 0 (JNum 1)
   \<and> state (heap (run_microtask (fst (then' (resolve two_pending 0 (JNum 1)) 0 NotAFunction NotAFunction))) 0)
        = FULFILLED
   \<and> value' (heap (run_microtask (fst (then' (resolve two_pending 0 (JNum 1)) 0 NotAFunction NotAFunction))) 0)
        = JNum 1"
proof -
  let ?w = "resolve two_pending 0 (JNum 1)"
  let ?w' = "run_microtask (fst (then' ?w 0 NotAFunction NotAFunction))"
  have h: "state (heap ?w 0) \<noteq> PEDDING"
    by (simp add: two_pending_def world_simps)
  have v: "state (heap ?w 0) = FULFILLED" "value' (heap ?w 0) = JNum 1"
    by (simp_all add: two_pending_def world_simps)
  have n: "0 < nextPromise ?w"
    by (simp add: two_pending_def world_simps)
  have s: "step\<^sup>*\<^sup>* ?w ?w'"
  proof -
    have "step ?w (fst (then' ?w 0 NotAFunction NotAFunction))" by (rule step_then)
    moreover have "step (fst (then' ?w 0 NotAFunction NotAFunction)) ?w'" by (rule step_microtask)
    ultimately show ?thesis by (meson r_into_rtranclp rtranclp.rtrancl_into_rtrancl)
  qed
  show ?thesis
    using h v n s settled_state_is_final[OF h, of "JNum 2" "JStr ''late''" ?w'] by simp
qed

text \<open>
  C3, amended. When a pending promise is settled, only the queue of that outcome is drained:
  \<open>resolve\<close> calls the fulfilled callbacks in order, each queuing its microtask, and leaves
  \<open>fulfilledCallbacks\<close> empty and \<open>rejectedCallbacks\<close> as it was; \<open>reject\<close> does the same with
  the two queues exchanged. Through any further steps, both queues of the settled promise
  stay as settlement left them: nothing is added to either and neither is drained.
\<close>

theorem settlement_drains_its_own_queue:
  assumes "state (heap w p) = PEDDING"
  shows "fulfilledCallbacks (heap (resolve w p v) p) = []
       \<and> rejectedCallbacks (heap (resolve w p v) p) = rejectedCallbacks (heap w p)
       \<and> microtasks (resolve w p v) = microtasks w @ map thunk_task (fulfilledCallbacks (heap w p))
       \<and> rejectedCallbacks (heap (reject w p r) p) = []
       \<and> fulfilledCallbacks (heap (reject w p r) p) = fulfilledCallbacks (heap w p)
       \<and> microtasks (reject w p r) = microtasks w @ map thunk_task (rejectedCallbacks (heap w p))
       \<and> (p < nextPromise w \<longrightarrow> step\<^sup>*\<^sup>* (resolve w p v) w' \<longrightarrow>
            fulfilledCallbacks (heap w' p) = []
          \<and> rejectedCallbacks (heap w' p) = rejectedCallbacks (heap w p))
       \<and> (p < nextPromise w \<longrightarrow> step\<^sup>*\<^sup>* (reject w p r) w' \<longrightarrow>
            rejectedCallbacks (heap w' p) = []
          \<and> fulfilledCallbacks (heap w' p) = fulfilledCallbacks (heap w p))"
proof -
  have a: "step\<^sup>*\<^sup>* (resolve w p v) w' \<Longrightarrow> p < nextPromise w \<Longrightarrow>
           heap w' p = heap (resolve w p v) p"
    by (rule settled_kept) (use assms in \<open>simp_all add: resolve_eq\<close>)
  have b: "step\<^sup>*\<^sup>* (reject w p r) w' \<Longrightarrow> p < nextPromise w \<Longrightarrow>
           heap w' p = heap (reject w p r) p"
    by (rule settled_kept) (use assms in \<open>simp_all add: reject_eq\<close>)
  show ?thesis using assms a b by (simp add: resolve_eq reject_eq)
qed

theorem settlement_drains_its_own_queue_witness:
  "state (heap one_subscribed 0) = PEDDING
   \<and> fulfilledCallbacks (heap one_subscribed 0) = [QueueMicrotask (OnFulfilledTask 0 PassValue 1)]
   \<and> fulfilledCallbacks (heap (resolve one_subscribed 0 (JNum 1)) 0) = []
   \<and> microtasks (resolve one_subscribed 0 (JNum 1)) = [OnFulfilledTask 0 PassValue 1]
   \<and> rejectedCallbacks (heap (run_microtask (resolve one_subscribed 0 (JNum 1))) 0)
        = [QueueMicrotask (OnRejectedTask 0 ThrowReason 1)]"
proof -
  let ?w' = "run_microtask (resolve one_subscribed 0 (JNum 1))"
  have h: "state (heap one_subscribed 0) = PEDDING"
    by (simp add: one_subscribed_def world_simps)
  have q: "fulfilledCallbacks (heap one_subscribed 0) = [QueueMicrotask (OnFulfilledTask 0 PassValue 1)]"
    "rejectedCallbacks (heap one_subscribed 0) = [QueueMicrotask (OnRejectedTask 0 ThrowReason 1)]"
    "microtasks one_subscribed = []"
    by (simp_all add: one_subscribed_def world_simps)
  have n: "0 < nextPromise one_subscribed"
    by (simp add: one_subscribed_def world_simps)
  have s: "step\<^sup>*\<^sup>* (resolve one_subscribed 0 (JNum 1)) ?w'"
    by (rule r_into_rtranclp) (rule step_microtask)
  show ?thesis
    using h q n s settlement_drains_its_own_queue[OF h, of "JNum 1" JNull ?w'] by simp
qed

text \<open>
  C3 as stated fails: after \<open>then()\<close> on a pending promise and \<open>resolve\<close>, the promise is
  fulfilled and its \<open>rejectedCallbacks\<close> still holds the callback that \<open>then\<close> stored.
\<close>

theorem rejected_queue_left_counterexample:
  "state (heap (resolve one_subscribed 0 (JNum 1)) 0) = FULFILLED
   \<and> rejectedCallbacks (heap (resolve one_subscribed 0 (JNum 1)) 0)
        = [QueueMicrotask (OnRejectedTask 0 ThrowReason 1)]"
  by (simp add: one_subscribed_def world_simps)

section \<open>The resolution procedure\<close>

lemma resolvePromise_cycle:
  "resolvePromise w promise (PromiseRef promise) = reject w promise (TypeError cycle_message)"
  by (subst resolvePromise.simps) (simp add: cycle_message_def)

lemma call_handler_User: "call_handler w (User l f) v = (emit w (CallHandler l v), f v)"
  by simp

text \<open>
  C4. When \<open>resolvePromise\<close> is called on a pending promise with that same promise as \<open>x\<close>,
  it returns with the promise rejected, the reason being the TypeError
  "Chaining cycle detected for promise". In particular, when the microtask of a \<open>then\<close> call
  runs a handler that returns the promise which that \<open>then\<close> call returned, that promise
  ends rejected with this TypeError, whether the handler was the one for fulfilment or the
  one for rejection.
\<close>

theorem cycle_is_rejected:
  assumes "state (heap w promise) = PEDDING"
  shows "resolvePromise w promise (PromiseRef promise) = reject w promise (TypeError cycle_message)
       \<and> state (heap (resolvePromise w promise (PromiseRef promise)) promise) = REJECTED
       \<and> reason (heap (resolvePromise w promise (PromiseRef promise)) promise) = TypeError cycle_message
       \<and> (f (value' (heap w this)) = Inr (PromiseRef promise) \<longrightarrow>
            state (heap (run_task w (OnFulfilledTask this (User l f) promise)) promise) = REJECTED
          \<and> reason (heap (run_task w (OnFulfilledTask this (User l f) promise)) promise)
               = TypeError cycle_message)
       \<and> (f (reason (heap w this)) = Inr (PromiseRef promise) \<longrightarrow>
            state (heap (run_task w (OnRejectedTask this (User l f) promise)) promise) = REJECTED
          \<and> reason (heap (run_task w (OnRejectedTask this (User l f) promise)) promise)
               = TypeError cycle_message)"
  using assms by (simp add: resolvePromise_cycle reject_eq emit_def)

theorem cycle_is_rejected_witness:
  "microtasks cycle_world = [OnFulfilledTask 0 returns_promise_1 1]
   \<and> state (heap cycle_world 1) = PEDDING
   \<and> state (heap (run_microtask cycle_world) 1) = REJECTED
   \<and> reason (heap (run_microtask cycle_world) 1) = TypeError cycle_message"
proof -
  have m: "microtasks cycle_world = [OnFulfilledTask 0 returns_promise_1 1]"
    by (simp add: cycle_world_def world_simps returns_promise_1_def)
  have h: "state (heap (cycle_world\<lparr>microtasks := []\<rparr>) 1) = PEDDING"
    by (simp add: cycle_world_def world_simps returns_promise_1_def)
  have r: "run_microtask cycle_world
             = run_task (cycle_world\<lparr>microtasks := []\<rparr>) (OnFulfilledTask 0 (User 7 (\<lambda>v. Inr (PromiseRef 1))) 1)"
    using m by (simp add: run_microtask_def returns_promise_1_def)
  show ?thesis
    using m h cycle_is_rejected[OF h, of "\<lambda>v. Inr (PromiseRef 1)" 0 7]
    unfolding r by simp
qed

lemma call_fun_called:
  "guards w g \<Longrightarrow> call_fun w (GuardedFulfill g p) (GuardedReject g p) calls = w"
proof (induction calls)
  case Nil
  then show ?case by simp
next
  case (Cons c calls)
  then show ?case by (cases c) simp_all
qed

lemma resolvePromise_thenable:
  assumes "get_then x = ThenFun calls thrown"
  shows "resolvePromise w promise x =
     (let w3 = call_fun (then_started w x)
                 (GuardedFulfill (nextGuard w) promise) (GuardedReject (nextGuard w) promise) calls
      in case thrown of
           None \<Rightarrow> w3
         | Some error \<Rightarrow>
             if guards w3 (nextGuard w) then w3
             else reject (w3\<lparr>guards := (guards w3)(nextGuard w := True)\<rparr>) promise error)"
proof -
  have "x = JObject (ThenFun calls thrown) \<or> x = JFunction (ThenFun calls thrown)"
    using assms by (cases x) simp_all
  then show ?thesis
    by (subst resolvePromise.simps)
       (auto simp add: Let_def then_started_def emit_def isObject_def split: option.splits)
qed

lemma guard_stays_set:
  assumes "guards w g" and "g < nextGuard w"
  shows "guards (resolvePromise w promise x) g" and "guards (reject w promise r) g"
  using extends_resolution(1)[of w promise x] extends_reject[of w promise r] assms
  by (simp_all add: extends_def)

text \<open>
  C5. Let a foreign \<open>then\<close> be called by \<open>resolvePromise\<close> for the promise \<open>promise\<close>. If it
  throws before calling a callback, the promise is rejected with what it threw. If its first
  call is to the fulfil callback with \<open>y\<close>, the result is that of \<open>resolvePromise\<close> with \<open>y\<close>,
  and if its first call is to the reject callback with \<open>r\<close>, the result is that of
  \<open>reject(r)\<close>: in both cases whatever calls it makes afterwards and whatever it throws at
  the end leave no trace. If it makes no call and does not throw, nothing happens to the
  promise. And once the \<open>called\<close> flag is set, a call of either callback, also a later one
  from outside the call of \<open>then\<close>, changes nothing in the store.
\<close>

theorem first_signal_wins:
  assumes "get_then x = ThenFun calls thrown"
  shows "(calls = [] \<and> thrown = Some error \<longrightarrow>
            resolvePromise w promise x =
              reject ((then_started w x)\<lparr>guards := (guards (then_started w x))(nextGuard w := True)\<rparr>)
                promise error)
       \<and> (calls = CallOnFulfill y # rest \<longrightarrow>
            resolvePromise w promise x =
              resolvePromise ((then_started w x)\<lparr>guards := (guards (then_started w x))(nextGuard w := True)\<rparr>)
                promise y)
       \<and> (calls = CallOnReject r # rest \<longrightarrow>
            resolvePromise w promise x =
              reject ((then_started w x)\<lparr>guards := (guards (then_started w x))(nextGuard w := True)\<rparr>)
                promise r)
       \<and> (calls = [] \<and> thrown = None \<longrightarrow> resolvePromise w promise x = then_started w x)
       \<and> (guards w' called \<longrightarrow>
            call_callback w' (GuardedFulfill called promise) y = w'
          \<and> call_callback w' (GuardedReject called promise) r = w')"
proof -
  let ?g = "nextGuard w"
  let ?w0 = "then_started w x"
  let ?w1 = "?w0\<lparr>guards := (guards ?w0)(?g := True)\<rparr>"
  have f: "\<not> guards ?w0 ?g" by (simp add: then_started_def emit_def)
  have s: "guards ?w1 ?g" "?g < nextGuard ?w1" by (simp_all add: then_started_def emit_def)
  have after: "guards w2 ?g \<Longrightarrow>
     (let w3 = call_fun w2 (GuardedFulfill ?g promise) (GuardedReject ?g promise) rest
      in case thrown of None \<Rightarrow> w3
         | Some error \<Rightarrow> if guards w3 ?g then w3
             else reject (w3\<lparr>guards := (guards w3)(?g := True)\<rparr>) promise error) = w2" for w2
    by (simp add: call_fun_called split: option.splits)
  have 1: "calls = [] \<Longrightarrow> thrown = Some error \<Longrightarrow> resolvePromise w promise x = reject ?w1 promise error"
    using f by (simp add: resolvePromise_thenable[OF assms] Let_def)
  have 2: "calls = CallOnFulfill y # rest \<Longrightarrow> resolvePromise w promise x = resolvePromise ?w1 promise y"
    using f after[OF guard_stays_set(1)[OF s]]
    by (simp add: resolvePromise_thenable[OF assms] Let_def)
  have 3: "calls = CallOnReject r # rest \<Longrightarrow> resolvePromise w promise x = reject ?w1 promise r"
    using f after[OF guard_stays_set(2)[OF s]]
    by (simp add: resolvePromise_thenable[OF assms] Let_def)
  have 4: "calls = [] \<Longrightarrow> thrown = None \<Longrightarrow> resolvePromise w promise x = ?w0"
    by (simp add: resolvePromise_thenable[OF assms] Let_def)
  show ?thesis using 1 2 3 4 by simp
qed

theorem first_signal_wins_witness:
  "get_then noisy_thenable
     = ThenFun [CallOnFulfill (JNum 1), CallOnReject (JNum 2), CallOnFulfill (JNum 3)] (Some (JStr ''boom''))
   \<and> state (heap (resolvePromise two_pending 0 noisy_thenable) 0) = FULFILLED
   \<and> value' (heap (resolvePromise two_pending 0 noisy_thenable) 0) = JNum 1
   \<and> guards (resolvePromise two_pending 0 noisy_thenable) 0
   \<and> call_callback (resolvePromise two_pending 0 noisy_thenable) (GuardedReject 0 0) (JNum 2)
        = resolvePromise two_pending 0 noisy_thenable"
proof -
  let ?w = "resolvePromise two_pending 0 noisy_thenable"
  have h: "get_then noisy_thenable
     = ThenFun [CallOnFulfill (JNum 1), CallOnReject (JNum 2), CallOnFulfill (JNum 3)] (Some (JStr ''boom''))"
    by (simp add: noisy_thenable_def)
  have g: "nextGuard two_pending = 0"
    by (simp add: two_pending_def world_simps)
  have r: "?w = resolvePromise ((then_started two_pending noisy_thenable)
                 \<lparr>guards := (guards (then_started two_pending noisy_thenable))(0 := True)\<rparr>) 0 (JNum 1)"
    using first_signal_wins[OF h, of "JStr ''boom''" two_pending 0 "JNum 1"
        "[CallOnReject (JNum 2), CallOnFulfill (JNum 3)]" "JNum 2" ?w 0] g
    by simp
  have e: "resolvePromise ((then_started two_pending noisy_thenable)
                 \<lparr>guards := (guards (then_started two_pending noisy_thenable))(0 := True)\<rparr>) 0 (JNum 1)
           = resolve ((then_started two_pending noisy_thenable)
                 \<lparr>guards := (guards (then_started two_pending noisy_thenable))(0 := True)\<rparr>) 0 (JNum 1)"
    by (subst resolvePromise.simps) (simp add: isObject_def)
  have v: "state (heap ?w 0) = FULFILLED" "value' (heap ?w 0) = JNum 1" "guards ?w 0"
    unfolding r e by (simp_all add: then_started_def two_pending_def world_simps)
  show ?thesis
    using h v first_signal_wins[OF h, of "JStr ''boom''" two_pending 0 "JNum 1"
        "[CallOnReject (JNum 2), CallOnFulfill (JNum 3)]" "JNum 2" ?w 0]
    by simp
qed

lemma resolvePromise_primitive:
  assumes "\<not> isObject x" and "\<not> isFunction x"
  shows "resolvePromise w promise x = resolve w promise x"
proof -
  have "instance_of_Promise x = None" "x \<noteq> PromiseRef promise"
    using assms by (cases x; simp add: isObject_def)+
  then show ?thesis using assms by (subst resolvePromise.simps) simp
qed

text \<open>
  C10. \<open>isObject\<close> and \<open>isFunction\<close> both answer no for \<open>null\<close> and for \<open>undefined\<close>. For a
  candidate \<open>x\<close> for which both answer no, \<open>resolvePromise\<close> is \<open>resolve(x)\<close> and nothing else:
  it returns, it reads no \<open>then\<close> member and calls none (the record of events is unchanged),
  and a pending promise is fulfilled with \<open>x\<close> itself.
\<close>

theorem primitive_candidate_fulfils:
  assumes "x = JNull \<or> x = JUndefined \<or> (\<not> isObject x \<and> \<not> isFunction x)"
  shows "\<not> isObject x \<and> \<not> isFunction x
       \<and> resolvePromise w promise x = resolve w promise x
       \<and> log (resolvePromise w promise x) = log w
       \<and> (state (heap w promise) = PEDDING \<longrightarrow>
            state (heap (resolvePromise w promise x) promise) = FULFILLED
          \<and> value' (heap (resolvePromise w promise x) promise) = x)"
proof -
  have p: "\<not> isObject x \<and> \<not> isFunction x"
    using assms by (auto simp: isObject_def)
  then show ?thesis
    by (simp add: resolvePromise_primitive resolve_eq)
qed

theorem primitive_candidate_fulfils_witness:
  "\<not> isObject JNull \<and> \<not> isFunction JNull
   \<and> resolvePromise two_pending 0 JNull = resolve two_pending 0 JNull
   \<and> log (resolvePromise two_pending 0 JNull) = []
   \<and> state (heap (resolvePromise two_pending 0 JNull) 0) = FULFILLED
   \<and> value' (heap (resolvePromise two_pending 0 JNull) 0) = JNull"
proof -
  have h: "state (heap two_pending 0) = PEDDING" "log two_pending = []"
    by (simp_all add: two_pending_def world_simps)
  show ?thesis
    using h primitive_candidate_fulfils[of JNull two_pending 0] by (simp add: resolve_eq)
qed

section \<open>Handlers run from the microtask queue only\<close>

lemma handler_calls_append: "handler_calls (es @ fs) = handler_calls es @ handler_calls fs"
  by (induction es rule: handler_calls.induct) simp_all

lemma quiet_refl: "quiet w w"
  by (simp add: quiet_def)

lemma quiet_trans: "quiet a b \<Longrightarrow> quiet b c \<Longrightarrow> quiet a c"
  by (auto simp: quiet_def)

lemma quiet_resolve: "quiet w (resolve w p v)"
  by (simp add: quiet_def resolve_eq)

lemma quiet_reject: "quiet w (reject w p v)"
  by (simp add: quiet_def reject_eq)

lemma quiet_then: "quiet w (fst (then' w q h1 h2))"
  by (simp add: quiet_def then_eq Let_def split: pstate.splits)

lemma quiet_ReadThen: "quiet w (emit w (ReadThen x))"
  by (simp add: quiet_def emit_def handler_calls_append)

lemma quiet_CallThen: "quiet w (emit w (CallThen x))"
  by (simp add: quiet_def emit_def handler_calls_append)

lemma quiet_new_guard:
  "quiet w (w\<lparr>guards := (guards w)(nextGuard w := b), nextGuard := Suc (nextGuard w)\<rparr>)"
  by (simp add: quiet_def)

lemma quiet_set_guard: "quiet w (w\<lparr>guards := (guards w)(g := True)\<rparr>)"
  by (simp add: quiet_def)

lemmas quiet_prims = quiet_refl quiet_resolve quiet_reject quiet_then quiet_ReadThen
  quiet_CallThen quiet_new_guard quiet_set_guard

lemma quiet_resolution:
  "quiet w (resolvePromise w promise x)"
  "quiet w (call_callback w cb v)"
  "quiet w (call_fun w f r calls)"
  by (rule resolution_rel[where R = quiet and T = "\<lambda>p. True"];
      (rule quiet_prims | erule (1) quiet_trans | simp))+

lemma run_user_task:
  assumes "microtasks w = OnFulfilledTask p (User l f) d # rest"
  shows "handler_calls (log (run_microtask w)) = handler_calls (log w) @ [(l, value' (heap w p))]"
    and "\<exists>ts. microtasks (run_microtask w) = rest @ ts"
    and "extends w (run_microtask w)"
proof -
  let ?w1 = "emit (w\<lparr>microtasks := rest\<rparr>) (CallHandler l (value' (heap w p)))"
  have r: "run_microtask w =
     (case f (value' (heap w p)) of Inl e \<Rightarrow> reject ?w1 d e | Inr x \<Rightarrow> resolvePromise ?w1 d x)"
    using assms by (simp add: run_microtask_def)
  have q: "quiet ?w1 (run_microtask w)"
    unfolding r by (simp add: quiet_reject quiet_resolution split: sum.splits)
  show "handler_calls (log (run_microtask w)) = handler_calls (log w) @ [(l, value' (heap w p))]"
    using q by (simp add: quiet_def emit_def handler_calls_append)
  show "\<exists>ts. microtasks (run_microtask w) = rest @ ts"
    using q by (simp add: quiet_def emit_def)
  show "extends w (run_microtask w)" by (rule extends_run_microtask)
qed

lemma run_user_task_rejected:
  assumes "microtasks w = OnRejectedTask p (User l f) d # rest"
  shows "handler_calls (log (run_microtask w)) = handler_calls (log w) @ [(l, reason (heap w p))]"
    and "\<exists>ts. microtasks (run_microtask w) = rest @ ts"
    and "extends w (run_microtask w)"
proof -
  let ?w1 = "emit (w\<lparr>microtasks := rest\<rparr>) (CallHandler l (reason (heap w p)))"
  have r: "run_microtask w =
     (case f (reason (heap w p)) of Inl e \<Rightarrow> reject ?w1 d e | Inr x \<Rightarrow> resolvePromise ?w1 d x)"
    using assms by (simp add: run_microtask_def)
  have q: "quiet ?w1 (run_microtask w)"
    unfolding r by (simp add: quiet_reject quiet_resolution split: sum.splits)
  show "handler_calls (log (run_microtask w)) = handler_calls (log w) @ [(l, reason (heap w p))]"
    using q by (simp add: quiet_def emit_def handler_calls_append)
  show "\<exists>ts. microtasks (run_microtask w) = rest @ ts"
    using q by (simp add: quiet_def emit_def)
  show "extends w (run_microtask w)" by (rule extends_run_microtask)
qed

text \<open>
  Running the user handlers at the head of the queue, all for the same settled promise:
  they are called in queue order with the value of that promise.
\<close>

lemma run_user_tasks:
  assumes "microtasks w = map (\<lambda>h. OnFulfilledTask p (User (fst h) (fst (snd h))) (snd (snd h))) hs @ rest"
    and "p < nextPromise w" and "state (heap w p) \<noteq> PEDDING"
  shows "handler_calls (log (run_microtasks (length hs) w))
           = handler_calls (log w) @ map (\<lambda>h. (fst h, value' (heap w p))) hs"
  using assms
proof (induction hs arbitrary: w rest)
  case Nil
  then show ?case by simp
next
  case (Cons h hs)
  obtain l f d where h: "h = (l, f, d)" by (cases h)
  let ?w1 = "run_microtask w"
  have m: "microtasks w = OnFulfilledTask p (User l f) d
              # (map (\<lambda>h. OnFulfilledTask p (User (fst h) (fst (snd h))) (snd (snd h))) hs @ rest)"
    using Cons.prems(1) h by simp
  obtain ts where ts: "microtasks ?w1 = map (\<lambda>h. OnFulfilledTask p (User (fst h) (fst (snd h))) (snd (snd h))) hs @ (rest @ ts)"
    using run_user_task(2)[OF m] by auto
  have e: "extends w ?w1" by (rule run_user_task(3)[OF m])
  have k: "heap ?w1 p = heap w p" "p < nextPromise ?w1"
    using e Cons.prems(2,3) by (auto simp: extends_def)
  have "handler_calls (log (run_microtasks (length hs) ?w1))
           = handler_calls (log ?w1) @ map (\<lambda>h. (fst h, value' (heap ?w1 p))) hs"
    by (rule Cons.IH[OF ts]) (use k Cons.prems(3) in simp_all)
  then show ?case using run_user_task(1)[OF m] k h by simp
qed

lemma run_user_tasks_rejected:
  assumes "microtasks w = map (\<lambda>h. OnRejectedTask p (User (fst h) (fst (snd h))) (snd (snd h))) hs @ rest"
    and "p < nextPromise w" and "state (heap w p) \<noteq> PEDDING"
  shows "handler_calls (log (run_microtasks (length hs) w))
           = handler_calls (log w) @ map (\<lambda>h. (fst h, reason (heap w p))) hs"
  using assms
proof (induction hs arbitrary: w rest)
  case Nil
  then show ?case by simp
next
  case (Cons h hs)
  obtain l f d where h: "h = (l, f, d)" by (cases h)
  let ?w1 = "run_microtask w"
  have m: "microtasks w = OnRejectedTask p (User l f) d
              # (map (\<lambda>h. OnRejectedTask p (User (fst h) (fst (snd h))) (snd (snd h))) hs @ rest)"
    using Cons.prems(1) h by simp
  obtain ts where ts: "microtasks ?w1 = map (\<lambda>h. OnRejectedTask p (User (fst h) (fst (snd h))) (snd (snd h))) hs @ (rest @ ts)"
    using run_user_task_rejected(2)[OF m] by auto
  have e: "extends w ?w1" by (rule run_user_task_rejected(3)[OF m])
  have k: "heap ?w1 p = heap w p" "p < nextPromise ?w1"
    using e Cons.prems(2,3) by (auto simp: extends_def)
  have "handler_calls (log (run_microtasks (length hs) ?w1))
           = handler_calls (log ?w1) @ map (\<lambda>h. (fst h, reason (heap ?w1 p))) hs"
    by (rule Cons.IH[OF ts]) (use k Cons.prems(3) in simp_all)
  then show ?case using run_user_task_rejected(1)[OF m] k h by simp
qed

lemma chain3_pending:
  assumes "this < nextPromise w" and "state (heap w this) = PEDDING"
  shows "state (heap (chain3 w this (User a fa, User a' ga) (User b fb, User b' gb) (User c fc, User c' gc)) this)
           = PEDDING"
    and "fulfilledCallbacks (heap (chain3 w this (User a fa, User a' ga) (User b fb, User b' gb) (User c fc, User c' gc)) this)
           = fulfilledCallbacks (heap w this) @
             [QueueMicrotask (OnFulfilledTask this (User a fa) (nextPromise w)),
              QueueMicrotask (OnFulfilledTask this (User b fb) (Suc (nextPromise w))),
              QueueMicrotask (OnFulfilledTask this (User c fc) (Suc (Suc (nextPromise w))))]"
    and "rejectedCallbacks (heap (chain3 w this (User a fa, User a' ga) (User b fb, User b' gb) (User c fc, User c' gc)) this)
           = rejectedCallbacks (heap w this) @
             [QueueMicrotask (OnRejectedTask this (User a' ga) (nextPromise w)),
              QueueMicrotask (OnRejectedTask this (User b' gb) (Suc (nextPromise w))),
              QueueMicrotask (OnRejectedTask this (User c' gc) (Suc (Suc (nextPromise w))))]"
    and "microtasks (chain3 w this (User a fa, User a' ga) (User b fb, User b' gb) (User c fc, User c' gc))
           = microtasks w"
    and "log (chain3 w this (User a fa, User a' ga) (User b fb, User b' gb) (User c fc, User c' gc)) = log w"
    and "this < nextPromise (chain3 w this (User a fa, User a' ga) (User b fb, User b' gb) (User c fc, User c' gc))"
  using assms by (simp_all add: chain3_def then_eq Let_def)

text \<open>
  C6. A call of \<open>then\<close> calls no handler, whatever the state of the promise, and neither
  does \<open>resolve\<close> or \<open>reject\<close>: the record of events is unchanged. On a promise that is
  already fulfilled or rejected, \<open>then\<close> puts the microtask of the matching handler at the
  end of the host's queue. And when \<open>then\<close> is called three times on a pending promise that
  has no other callback, with nothing else queued, and the promise is then fulfilled (or
  rejected), the queue holds the three microtasks in the order of the calls, and three turns
  of the scheduler call the three fulfilment (or rejection) handlers in that order, each
  with the value (or reason) of the promise.
\<close>

theorem handlers_run_from_queue_in_order:
  assumes "this < nextPromise w"
  shows "log (fst (then' w this onFulfilled onRejected)) = log w
       \<and> log (resolve w this v) = log w
       \<and> log (reject w this r) = log w
       \<and> (state (heap w this) = FULFILLED \<longrightarrow>
            microtasks (fst (then' w this (User l f) onRejected))
              = microtasks w @ [OnFulfilledTask this (User l f) (nextPromise w)])
       \<and> (state (heap w this) = REJECTED \<longrightarrow>
            microtasks (fst (then' w this onFulfilled (User l f)))
              = microtasks w @ [OnRejectedTask this (User l f) (nextPromise w)])
       \<and> (state (heap w this) = PEDDING \<and> fulfilledCallbacks (heap w this) = []
            \<and> rejectedCallbacks (heap w this) = [] \<and> microtasks w = [] \<longrightarrow>
            microtasks (resolve (chain3 w this (User a fa, User a' ga) (User b fb, User b' gb) (User c fc, User c' gc)) this v)
              = [OnFulfilledTask this (User a fa) (nextPromise w),
                 OnFulfilledTask this (User b fb) (Suc (nextPromise w)),
                 OnFulfilledTask this (User c fc) (Suc (Suc (nextPromise w)))]
          \<and> handler_calls (log (run_microtasks 3
                (resolve (chain3 w this (User a fa, User a' ga) (User b fb, User b' gb) (User c fc, User c' gc)) this v)))
              = handler_calls (log w) @ [(a, v), (b, v), (c, v)]
          \<and> microtasks (reject (chain3 w this (User a fa, User a' ga) (User b fb, User b' gb) (User c fc, User c' gc)) this r)
              = [OnRejectedTask this (User a' ga) (nextPromise w),
                 OnRejectedTask this (User b' gb) (Suc (nextPromise w)),
                 OnRejectedTask this (User c' gc) (Suc (Suc (nextPromise w)))]
          \<and> handler_calls (log (run_microtasks 3
                (reject (chain3 w this (User a fa, User a' ga) (User b fb, User b' gb) (User c fc, User c' gc)) this r)))
              = handler_calls (log w) @ [(a', r), (b', r), (c', r)])"
proof -
  let ?w3 = "chain3 w this (User a fa, User a' ga) (User b fb, User b' gb) (User c fc, User c' gc)"
  have 1: "log (fst (then' w this onFulfilled onRejected)) = log w"
    by (simp add: then_eq Let_def split: pstate.splits)
  have 2: "log (resolve w this v) = log w" "log (reject w this r) = log w"
    by (simp_all add: resolve_eq reject_eq)
  have 3: "state (heap w this) = FULFILLED \<Longrightarrow>
            microtasks (fst (then' w this (User l f) onRejected))
              = microtasks w @ [OnFulfilledTask this (User l f) (nextPromise w)]"
    using assms by (simp add: then_eq Let_def)
  have 4: "state (heap w this) = REJECTED \<Longrightarrow>
            microtasks (fst (then' w this onFulfilled (User l f)))
              = microtasks w @ [OnRejectedTask this (User l f) (nextPromise w)]"
    using assms by (simp add: then_eq Let_def)
  {
    assume p: "state (heap w this) = PEDDING" and e: "fulfilledCallbacks (heap w this) = []"
      "rejectedCallbacks (heap w this) = []" "microtasks w = []"
    note c = chain3_pending[OF assms p, of a fa a' ga b fb b' gb c fc c' gc]
    let ?wf = "resolve ?w3 this v"
    let ?wr = "reject ?w3 this r"
    have mf: "microtasks ?wf = map (\<lambda>h. OnFulfilledTask this (User (fst h) (fst (snd h))) (snd (snd h)))
                [(a, fa, nextPromise w), (b, fb, Suc (nextPromise w)), (c, fc, Suc (Suc (nextPromise w)))] @ []"
      using c e by (simp add: resolve_eq)
    have mr: "microtasks ?wr = map (\<lambda>h. OnRejectedTask this (User (fst h) (fst (snd h))) (snd (snd h)))
                [(a', ga, nextPromise w), (b', gb, Suc (nextPromise w)), (c', gc, Suc (Suc (nextPromise w)))] @ []"
      using c e by (simp add: reject_eq)
    have sf: "this < nextPromise ?wf" "state (heap ?wf this) \<noteq> PEDDING" "value' (heap ?wf this) = v"
      "log ?wf = log w"
      using c by (simp_all add: resolve_eq)
    have sr: "this < nextPromise ?wr" "state (heap ?wr this) \<noteq> PEDDING" "reason (heap ?wr this) = r"
      "log ?wr = log w"
      using c by (simp_all add: reject_eq)
    have "handler_calls (log (run_microtasks 3 ?wf)) = handler_calls (log w) @ [(a, v), (b, v), (c, v)]"
      using run_user_tasks[OF mf sf(1,2)] sf(3,4) by (simp add: numeral_3_eq_3)
    moreover have "handler_calls (log (run_microtasks 3 ?wr)) = handler_calls (log w) @ [(a', r), (b', r), (c', r)]"
      using run_user_tasks_rejected[OF mr sr(1,2)] sr(3,4) by (simp add: numeral_3_eq_3)
    moreover note mf mr
    ultimately have "microtasks ?wf
              = [OnFulfilledTask this (User a fa) (nextPromise w),
                 OnFulfilledTask this (User b fb) (Suc (nextPromise w)),
                 OnFulfilledTask this (User c fc) (Suc (Suc (nextPromise w)))]
          \<and> handler_calls (log (run_microtasks 3 ?wf)) = handler_calls (log w) @ [(a, v), (b, v), (c, v)]
          \<and> microtasks ?wr
              = [OnRejectedTask this (User a' ga) (nextPromise w),
                 OnRejectedTask this (User b' gb) (Suc (nextPromise w)),
                 OnRejectedTask this (User c' gc) (Suc (Suc (nextPromise w)))]
          \<and> handler_calls (log (run_microtasks 3 ?wr)) = handler_calls (log w) @ [(a', r), (b', r), (c', r)]"
      by simp
  }
  with 1 2 3 4 show ?thesis by blast
qed

theorem handlers_run_from_queue_in_order_witness:
  "0 < nextPromise one_pending
   \<and> state (heap one_pending 0) = PEDDING
   \<and> log (chain3 one_pending 0 (User 1 Inr, User 4 Inl) (User 2 Inl, User 5 Inl) (User 3 Inr, User 6 Inr)) = []
   \<and> log (resolve (chain3 one_pending 0 (User 1 Inr, User 4 Inl) (User 2 Inl, User 5 Inl) (User 3 Inr, User 6 Inr)) 0 (JNum 7)) = []
   \<and> handler_calls (log (run_microtasks 3
        (resolve (chain3 one_pending 0 (User 1 Inr, User 4 Inl) (User 2 Inl, User 5 Inl) (User 3 Inr, User 6 Inr)) 0 (JNum 7))))
        = [(1, JNum 7), (2, JNum 7), (3, JNum 7)]
   \<and> handler_calls (log (run_microtasks 3
        (reject (chain3 one_pending 0 (User 1 Inr, User 4 Inl) (User 2 Inl, User 5 Inl) (User 3 Inr, User 6 Inr)) 0 (JStr ''e''))))
        = [(4, JStr ''e''), (5, JStr ''e''), (6, JStr ''e'')]"
proof -
  let ?c = "chain3 one_pending 0 (User 1 Inr, User 4 Inl) (User 2 Inl, User 5 Inl) (User 3 Inr, User 6 Inr)"
  have h: "0 < nextPromise one_pending"
    by (simp add: one_pending_def world_simps)
  have p: "state (heap one_pending 0) = PEDDING" "fulfilledCallbacks (heap one_pending 0) = []"
    "rejectedCallbacks (heap one_pending 0) = []" "microtasks one_pending = []" "log one_pending = []"
    by (simp_all add: one_pending_def world_simps)
  have l: "log ?c = []"
    using chain3_pending(5)[OF h p(1)] p(5) by simp
  have l2: "log (resolve ?c 0 (JNum 7)) = []"
    using handlers_run_from_queue_in_order[of 0 ?c] chain3_pending(6)[OF h p(1)] l by simp
  show ?thesis
    using h p l l2
      handlers_run_from_queue_in_order[OF h, of _ _ "JNum 7" "JStr ''e''" _ _ 1 Inr 4 Inl 2 Inl 5 Inl 3 Inr 6 Inr]
    by simp
qed

section \<open>A promise that nothing can settle\<close>

lemma stays_refl: "stays_pending a w w"
  by (simp add: stays_pending_def)

lemma stays_trans: "stays_pending a w1 w2 \<Longrightarrow> stays_pending a w2 w3 \<Longrightarrow> stays_pending a w1 w3"
  by (auto simp: stays_pending_def)

lemma stays_resolve: "p \<noteq> a \<Longrightarrow> stays_pending a w (resolve w p v)"
  by (auto simp: stays_pending_def no_capability_def resolve_eq)

lemma stays_reject: "p \<noteq> a \<Longrightarrow> stays_pending a w (reject w p v)"
  by (auto simp: stays_pending_def no_capability_def reject_eq)

lemma default_handler_target:
  "handler_target (case h of NotAFunction \<Rightarrow> PassValue | _ \<Rightarrow> h) = handler_target h"
  "handler_target (case h of NotAFunction \<Rightarrow> ThrowReason | _ \<Rightarrow> h) = handler_target h"
  by (cases h; simp)+

lemma stays_then:
  assumes "handler_target h1 \<noteq> Some a" and "handler_target h2 \<noteq> Some a"
  shows "stays_pending a w (fst (then' w q h1 h2))"
  using assms
  by (auto simp: stays_pending_def no_capability_def then_eq Let_def initValue_def
        default_handler_target split: pstate.splits)

lemma stays_emit: "stays_pending a w (emit w e)"
  by (simp add: stays_pending_def no_capability_def emit_def)

lemma stays_new_guard:
  "stays_pending a w (w\<lparr>guards := (guards w)(nextGuard w := b), nextGuard := Suc (nextGuard w)\<rparr>)"
  by (simp add: stays_pending_def no_capability_def)

lemma stays_set_guard: "stays_pending a w (w\<lparr>guards := (guards w)(g := True)\<rparr>)"
  by (simp add: stays_pending_def no_capability_def)

lemma stays_resolution:
  "promise \<noteq> a \<Longrightarrow> stays_pending a w (resolvePromise w promise x)"
  "callback_target cb \<noteq> a \<Longrightarrow> stays_pending a w (call_callback w cb v)"
  "callback_target f \<noteq> a \<Longrightarrow> callback_target r \<noteq> a \<Longrightarrow> stays_pending a w (call_fun w f r calls)"
  by (rule resolution_rel[where R = "stays_pending a" and T = "\<lambda>p. p \<noteq> a"];
      (rule stays_refl stays_emit stays_new_guard stays_set_guard
       | erule (1) stays_trans | erule stays_resolve | erule stays_reject
       | (rule stays_then; simp) | assumption))+

lemma stays_cells: "stays_pending a w (w\<lparr>cells := f\<rparr>)"
  by (simp add: stays_pending_def no_capability_def)

lemma stays_store_and_count:
  assumes "\<And>w. stays_pending a w (settle w)"
  shows "stays_pending a w (store_and_count w c i v n settle)"
  unfolding store_and_count_eq
  using stays_cells stays_trans[OF stays_cells assms] by simp

lemma stays_call_handler:
  "handler_target h \<noteq> Some a \<Longrightarrow> stays_pending a w (fst (call_handler w h v))"
  by (cases h)
     (simp_all add: stays_refl stays_emit stays_resolve stays_reject stays_resolution
        stays_store_and_count)

lemma stays_run_task:
  assumes "a \<notin> task_targets t"
  shows "stays_pending a w (run_task w t)"
proof (cases t)
  case (OnFulfilledTask this h promise)
  obtain w1 res where c: "call_handler w h (value' (heap w this)) = (w1, res)"
    by (cases "call_handler w h (value' (heap w this))")
  have t: "handler_target h \<noteq> Some a" "promise \<noteq> a"
    using assms OnFulfilledTask by auto
  have "stays_pending a w w1" using stays_call_handler[OF t(1), of w "value' (heap w this)"] c by simp
  then show ?thesis using OnFulfilledTask c t(2)
    by (cases res) (auto intro: stays_trans stays_reject stays_resolution)
next
  case (OnRejectedTask this h promise)
  obtain w1 res where c: "call_handler w h (reason (heap w this)) = (w1, res)"
    by (cases "call_handler w h (reason (heap w this))")
  have t: "handler_target h \<noteq> Some a" "promise \<noteq> a"
    using assms OnRejectedTask by auto
  have "stays_pending a w w1" using stays_call_handler[OF t(1), of w "reason (heap w this)"] c by simp
  then show ?thesis using OnRejectedTask c t(2)
    by (cases res) (auto intro: stays_trans stays_reject stays_resolution)
qed

lemma stays_run_microtask: "stays_pending a w (run_microtask w)"
proof (cases "microtasks w")
  case Nil
  then show ?thesis by (simp add: run_microtask_def stays_refl)
next
  case (Cons t ts)
  show ?thesis
  proof (cases "a \<in> task_targets t")
    case True
    then show ?thesis using Cons by (simp add: stays_pending_def no_capability_def)
  next
    case False
    have 1: "stays_pending a w (w\<lparr>microtasks := ts\<rparr>)"
      using Cons by (simp add: stays_pending_def no_capability_def)
    show ?thesis using Cons stays_trans[OF 1 stays_run_task[OF False]]
      by (simp add: run_microtask_def)
  qed
qed

lemma stays_run_microtasks: "stays_pending a w (run_microtasks n w)"
  by (induction n arbitrary: w) (auto intro: stays_refl stays_trans[OF stays_run_microtask])

lemma stays_construct:
  assumes "\<And>w1 this. this \<noteq> a \<Longrightarrow> stays_pending a w1 (fst (executor w1 this))"
  shows "stays_pending a w (fst (construct w executor))"
proof (cases "a < nextPromise w")
  case False
  then show ?thesis by (simp add: stays_pending_def)
next
  case True
  let ?w1 = "fst (alloc w)"
  let ?new = "nextPromise w"
  obtain w2 thrown where e: "executor ?w1 ?new = (w2, thrown)" by (cases "executor ?w1 ?new")
  have n: "?new \<noteq> a" using True by simp
  have 1: "stays_pending a w ?w1"
    using True by (auto simp: stays_pending_def no_capability_def alloc_def initValue_def)
  have 2: "stays_pending a ?w1 w2" using assms[OF n, of ?w1] e by simp
  have 3: "stays_pending a w2 (reject w2 ?new err)" for err by (rule stays_reject[OF n])
  show ?thesis using e stays_trans[OF 1 2] stays_trans[OF stays_trans[OF 1 2] 3]
    by (simp add: construct_def alloc_def split: option.splits)
qed

lemma stays_new_Promise: "stays_pending a w (fst (new_Promise w executor))"
proof (cases executor)
  case NotAnExecutor
  then show ?thesis by (simp add: new_Promise_def stays_refl)
next
  case (Executor calls thrown)
  have "stays_pending a w (fst (construct w (\<lambda>w1 this. (call_fun w1 (Resolve this) (Reject this) calls, thrown))))"
    by (rule stays_construct) (simp add: stays_resolution)
  then show ?thesis using Executor by (simp add: new_Promise_def case_prod_beta)
qed

lemma stays_deferred: "stays_pending a w (fst (deferred w))"
  unfolding deferred_def by (rule stays_construct) (simp add: stays_refl)

lemma stays_Promise_reject: "stays_pending a w (fst (Promise_reject w r))"
  unfolding Promise_reject_def by (rule stays_construct) (simp add: stays_reject)

lemma stays_Promise_resolve: "stays_pending a w (fst (Promise_resolve w v))"
proof -
  have 1: "stays_pending a w (fst (construct w (\<lambda>w1 this. (resolve w1 this v, None))))"
    by (rule stays_construct) (simp add: stays_resolve)
  have 2: "stays_pending a w (fst (construct (emit w (ReadThen v)) (\<lambda>w1 this. (resolve w1 this v, None))))"
    by (rule stays_trans[OF stays_emit], rule stays_construct) (simp add: stays_resolve)
  have 3: "stays_pending a w (fst (construct (emit w (ReadThen v)) (\<lambda>w1 this.
                       (call_fun (emit (emit w1 (ReadThen v)) (CallThen v))
                          (Resolve this) (Reject this) calls, thrown))))" for calls thrown
    by (rule stays_trans[OF stays_emit], rule stays_construct)
       (simp add: stays_trans[OF stays_emit stays_trans[OF stays_emit stays_resolution(3)]])
  show ?thesis using 1 2 3
    by (simp add: Promise_resolve_def stays_refl stays_emit
             case_prod_beta split: option.splits then_member.splits)
qed

lemma stays_forEach_then:
  assumes "\<And>i. handler_target (fst (hs i)) \<noteq> Some a \<and> handler_target (snd (hs i)) \<noteq> Some a"
  shows "stays_pending a w (fst (forEach_then hs w i ps))"
proof (induction ps arbitrary: w i)
  case Nil
  then show ?case by (simp add: stays_refl)
next
  case (Cons p ps)
  obtain w1 res where r: "Promise_resolve w p = (w1, res)" by (cases "Promise_resolve w p")
  have 1: "stays_pending a w w1" using stays_Promise_resolve[of a w p] r by simp
  show ?case
  proof (cases res)
    case (Inl e)
    then show ?thesis using r 1 by simp
  next
    case (Inr q)
    have 2: "stays_pending a w1 (fst (then' w1 q (fst (hs i)) (snd (hs i))))"
      by (rule stays_then) (simp_all add: assms)
    show ?thesis using r Inr
      by (simp add: stays_trans[OF 1 stays_trans[OF 2 Cons.IH]])
  qed
qed

lemma stays_new_cell: "stays_pending a w (fst (new_cell w))"
  by (simp add: new_cell_def stays_pending_def no_capability_def)

lemma stays_combinator:
  assumes "\<And>this i. this \<noteq> a \<Longrightarrow>
     handler_target (fst (hs this i)) \<noteq> Some a \<and> handler_target (snd (hs this i)) \<noteq> Some a"
  shows "stays_pending a w (fst (construct w (\<lambda>w2 this. forEach_then (hs this) w2 0 ps)))"
  by (rule stays_construct) (rule stays_forEach_then, rule assms)

lemma stays_Promise_all: "stays_pending a w (fst (Promise_all w promises))"
proof (cases promises)
  case NotIterable
  then show ?thesis by (simp add: Promise_all_def stays_refl)
next
  case (Iterable ps)
  obtain w1 c where n: "new_cell w = (w1, c)" by (cases "new_cell w")
  have 1: "stays_pending a w w1" using stays_new_cell[of a w] n by simp
  have 2: "stays_pending a w1 (fst (construct w1 (\<lambda>w2 this.
             forEach_then (\<lambda>i. (AllFulfilled c i (length ps) this, EntryReject this)) w2 0 ps)))"
    by (rule stays_combinator[where hs = "\<lambda>this i. (AllFulfilled c i (length ps) this, EntryReject this)"]) simp
  show ?thesis using Iterable n stays_trans[OF 1 stays_Promise_resolve] stays_trans[OF 1 2]
    by (simp add: Promise_all_def case_prod_beta)
qed

lemma stays_Promise_allSettled: "stays_pending a w (fst (Promise_allSettled w promises))"
proof (cases promises)
  case NotIterable
  then show ?thesis by (simp add: Promise_allSettled_def stays_refl)
next
  case (Iterable ps)
  obtain w1 c where n: "new_cell w = (w1, c)" by (cases "new_cell w")
  have 1: "stays_pending a w w1" using stays_new_cell[of a w] n by simp
  have 2: "stays_pending a w1 (fst (construct w1 (\<lambda>w2 this.
             forEach_then (\<lambda>i. (SettledFulfilled c i (length ps) this,
                                 SettledRejected c i (length ps) this)) w2 0 ps)))"
    by (rule stays_combinator[where hs = "\<lambda>this i. (SettledFulfilled c i (length ps) this,
                                 SettledRejected c i (length ps) this)"]) simp
  show ?thesis using Iterable n stays_trans[OF 1 stays_Promise_resolve] stays_trans[OF 1 2]
    by (simp add: Promise_allSettled_def case_prod_beta)
qed

lemma stays_Promise_race: "stays_pending a w (fst (Promise_race w promises))"
proof (cases promises)
  case NotIterable
  then show ?thesis by (simp add: Promise_race_def stays_refl)
next
  case (Iterable ps)
  have 2: "stays_pending a w (fst (construct w (\<lambda>w2 this.
             forEach_then (\<lambda>i. (EntryResolve this, EntryReject this)) w2 0 ps)))"
    by (rule stays_combinator[where hs = "\<lambda>this i. (EntryResolve this, EntryReject this)"]) simp
  show ?thesis using Iterable 2 by (simp add: Promise_race_def case_prod_beta)
qed

lemma stays_Promise_any: "stays_pending a w (fst (Promise_any host w promises))"
proof (cases promises)
  case NotIterable
  then show ?thesis by (simp add: Promise_any_def stays_refl)
next
  case (Iterable ps)
  show ?thesis
  proof (cases host)
    case (ConstructorThrows e)
    then show ?thesis using Iterable by (simp add: Promise_any_def stays_refl)
  next
    case ReturnsEmptyAggregate
    obtain w1 c where n: "new_cell w = (w1, c)" by (cases "new_cell w")
    have 1: "stays_pending a w w1" using stays_new_cell[of a w] n by simp
    have 2: "stays_pending a w1 (fst (construct w1 (\<lambda>w2 this.
               forEach_then (\<lambda>i. (EntryResolve this, AnyRejected c i (length ps) this)) w2 0 ps)))"
      by (rule stays_combinator[where hs = "\<lambda>this i. (EntryResolve this, AnyRejected c i (length ps) this)"]) simp
    show ?thesis using Iterable ReturnsEmptyAggregate n
        stays_trans[OF 1 stays_Promise_reject] stays_trans[OF 1 2]
      by (simp add: Promise_any_def case_prod_beta)
  qed
qed

lemma step_without_stays: "step_without a w w' \<Longrightarrow> stays_pending a w w'"
  by (induction rule: step_without.induct)
     (simp_all add: stays_resolve stays_reject stays_resolution stays_then stays_run_microtask
        stays_new_Promise stays_deferred stays_Promise_resolve stays_Promise_reject
        stays_Promise_all stays_Promise_race stays_Promise_allSettled stays_Promise_any)

lemma steps_without_stay: "(step_without a)\<^sup>*\<^sup>* w w' \<Longrightarrow> stays_pending a w w'"
  by (induction rule: rtranclp_induct) (auto intro: stays_refl stays_trans step_without_stays)

section \<open>The combinators on an empty collection\<close>

lemma Promise_resolve_array:
  "Promise_resolve w (ArrayRef c) =
     (resolve (fst (alloc (emit w (ReadThen (ArrayRef c))))) (nextPromise w) (ArrayRef c),
      Inr (nextPromise w))"
  by (simp add: Promise_resolve_def isObject_def construct_def alloc_def emit_def)

lemma Promise_all_empty:
  "Promise_all w (Iterable []) =
     (resolve (fst (alloc (emit (fst (new_cell w)) (ReadThen (ArrayRef (nextCell w))))))
        (nextPromise w) (ArrayRef (nextCell w)), Inr (nextPromise w))"
  by (simp add: Promise_all_def new_cell_def Promise_resolve_array)

lemma Promise_allSettled_empty:
  "Promise_allSettled w (Iterable []) =
     (resolve (fst (alloc (emit (fst (new_cell w)) (ReadThen (ArrayRef (nextCell w))))))
        (nextPromise w) (ArrayRef (nextCell w)), Inr (nextPromise w))"
  by (simp add: Promise_allSettled_def new_cell_def Promise_resolve_array)

lemma Promise_race_empty:
  "Promise_race w (Iterable []) = (fst (alloc w), Inr (nextPromise w))"
  by (simp add: Promise_race_def construct_def alloc_def)

lemma Promise_any_empty:
  "Promise_any ReturnsEmptyAggregate w (Iterable []) =
     (reject (fst (alloc (fst (new_cell w)))) (nextPromise w) (AggregateRef (nextCell w)),
      Inr (nextPromise w))"
  by (simp add: Promise_any_def new_cell_def Promise_reject_def construct_def alloc_def)

text \<open>
  C9, on the code. For an empty collection, \<open>all\<close> and \<open>allSettled\<close> return at once a new
  promise that is already fulfilled with the new, empty \<open>results\<close> array; nothing is queued
  and no callback is stored in any promise. \<open>race\<close> returns a new pending promise without
  callbacks and changes nothing else; if nothing in the store could settle the address of
  that promise before, then through any steps of a program that does not hold its entry
  points it stays pending. \<open>any\<close> does not get as far as its test for the empty collection
  when the host's \<open>new AggregateError()\<close> throws, as the constructor of ECMA-262 does: the
  call throws that error and no promise is returned; only with a constructor that returns
  an empty aggregate does it return a promise already rejected with that aggregate.
\<close>

theorem empty_collection:
  "(snd (Promise_all w (Iterable [])) = Inr (nextPromise w)
    \<and> state (heap (fst (Promise_all w (Iterable []))) (nextPromise w)) = FULFILLED
    \<and> value' (heap (fst (Promise_all w (Iterable []))) (nextPromise w)) = ArrayRef (nextCell w)
    \<and> results (cells (fst (Promise_all w (Iterable []))) (nextCell w)) = []
    \<and> microtasks (fst (Promise_all w (Iterable []))) = microtasks w
    \<and> (\<forall>q. q \<noteq> nextPromise w \<longrightarrow> heap (fst (Promise_all w (Iterable []))) q = heap w q))
   \<and> (snd (Promise_allSettled w (Iterable [])) = Inr (nextPromise w)
    \<and> state (heap (fst (Promise_allSettled w (Iterable []))) (nextPromise w)) = FULFILLED
    \<and> value' (heap (fst (Promise_allSettled w (Iterable []))) (nextPromise w)) = ArrayRef (nextCell w)
    \<and> results (cells (fst (Promise_allSettled w (Iterable []))) (nextCell w)) = []
    \<and> microtasks (fst (Promise_allSettled w (Iterable []))) = microtasks w
    \<and> (\<forall>q. q \<noteq> nextPromise w \<longrightarrow> heap (fst (Promise_allSettled w (Iterable []))) q = heap w q))
   \<and> (snd (Promise_race w (Iterable [])) = Inr (nextPromise w)
    \<and> heap (fst (Promise_race w (Iterable []))) (nextPromise w) = initValue
    \<and> microtasks (fst (Promise_race w (Iterable []))) = microtasks w
    \<and> (\<forall>q. q \<noteq> nextPromise w \<longrightarrow> heap (fst (Promise_race w (Iterable []))) q = heap w q)
    \<and> (no_capability (nextPromise w) w \<longrightarrow>
          (step_without (nextPromise w))\<^sup>*\<^sup>* (fst (Promise_race w (Iterable []))) w' \<longrightarrow>
          state (heap w' (nextPromise w)) = PEDDING))
   \<and> Promise_any ecma262_AggregateError w (Iterable [])
        = (w, Inl (TypeError ''undefined is not iterable (cannot read property Symbol(Symbol.iterator))''))
   \<and> Promise_any (ConstructorThrows error) w (Iterable []) = (w, Inl error)
   \<and> (snd (Promise_any ReturnsEmptyAggregate w (Iterable [])) = Inr (nextPromise w)
    \<and> state (heap (fst (Promise_any ReturnsEmptyAggregate w (Iterable []))) (nextPromise w)) = REJECTED
    \<and> reason (heap (fst (Promise_any ReturnsEmptyAggregate w (Iterable []))) (nextPromise w))
         = AggregateRef (nextCell w)
    \<and> results (cells (fst (Promise_any ReturnsEmptyAggregate w (Iterable []))) (nextCell w)) = []
    \<and> microtasks (fst (Promise_any ReturnsEmptyAggregate w (Iterable []))) = microtasks w)"
proof -
  have a: "snd (Promise_all w (Iterable [])) = Inr (nextPromise w)
    \<and> state (heap (fst (Promise_all w (Iterable []))) (nextPromise w)) = FULFILLED
    \<and> value' (heap (fst (Promise_all w (Iterable []))) (nextPromise w)) = ArrayRef (nextCell w)
    \<and> results (cells (fst (Promise_all w (Iterable []))) (nextCell w)) = []
    \<and> microtasks (fst (Promise_all w (Iterable []))) = microtasks w
    \<and> (\<forall>q. q \<noteq> nextPromise w \<longrightarrow> heap (fst (Promise_all w (Iterable []))) q = heap w q)"
    by (simp add: Promise_all_empty resolve_eq alloc_def emit_def new_cell_def initValue_def)
  have b: "snd (Promise_allSettled w (Iterable [])) = Inr (nextPromise w)
    \<and> state (heap (fst (Promise_allSettled w (Iterable []))) (nextPromise w)) = FULFILLED
    \<and> value' (heap (fst (Promise_allSettled w (Iterable []))) (nextPromise w)) = ArrayRef (nextCell w)
    \<and> results (cells (fst (Promise_allSettled w (Iterable []))) (nextCell w)) = []
    \<and> microtasks (fst (Promise_allSettled w (Iterable []))) = microtasks w
    \<and> (\<forall>q. q \<noteq> nextPromise w \<longrightarrow> heap (fst (Promise_allSettled w (Iterable []))) q = heap w q)"
    by (simp add: Promise_allSettled_empty resolve_eq alloc_def emit_def new_cell_def initValue_def)
  have c1: "snd (Promise_race w (Iterable [])) = Inr (nextPromise w)
    \<and> heap (fst (Promise_race w (Iterable []))) (nextPromise w) = initValue
    \<and> microtasks (fst (Promise_race w (Iterable []))) = microtasks w
    \<and> (\<forall>q. q \<noteq> nextPromise w \<longrightarrow> heap (fst (Promise_race w (Iterable []))) q = heap w q)"
    by (simp add: Promise_race_empty alloc_def)
  have c2: "state (heap w' (nextPromise w)) = PEDDING"
    if n: "no_capability (nextPromise w) w"
      and s: "(step_without (nextPromise w))\<^sup>*\<^sup>* (fst (Promise_race w (Iterable []))) w'"
  proof -
    let ?w1 = "fst (Promise_race w (Iterable []))"
    have "nextPromise w < nextPromise ?w1 \<and> no_capability (nextPromise w) ?w1
            \<and> state (heap ?w1 (nextPromise w)) = PEDDING"
      using n by (auto simp: Promise_race_empty alloc_def no_capability_def initValue_def)
    then show ?thesis using steps_without_stay[OF s] by (simp add: stays_pending_def)
  qed
  have d: "Promise_any ecma262_AggregateError w (Iterable [])
        = (w, Inl (TypeError ''undefined is not iterable (cannot read property Symbol(Symbol.iterator))''))"
    "Promise_any (ConstructorThrows error) w (Iterable []) = (w, Inl error)"
    by (simp_all add: Promise_any_def ecma262_AggregateError_def)
  have e: "snd (Promise_any ReturnsEmptyAggregate w (Iterable [])) = Inr (nextPromise w)
    \<and> state (heap (fst (Promise_any ReturnsEmptyAggregate w (Iterable []))) (nextPromise w)) = REJECTED
    \<and> reason (heap (fst (Promise_any ReturnsEmptyAggregate w (Iterable []))) (nextPromise w))
         = AggregateRef (nextCell w)
    \<and> results (cells (fst (Promise_any ReturnsEmptyAggregate w (Iterable []))) (nextCell w)) = []
    \<and> microtasks (fst (Promise_any ReturnsEmptyAggregate w (Iterable []))) = microtasks w"
    by (simp add: Promise_any_empty reject_eq alloc_def new_cell_def initValue_def)
  show ?thesis using a b c1 c2 d e by blast
qed

theorem empty_collection_witness:
  "no_capability 0 empty_world
   \<and> state (heap (fst (Promise_all empty_world (Iterable []))) 0) = FULFILLED
   \<and> state (heap (fst (Promise_allSettled empty_world (Iterable []))) 0) = FULFILLED
   \<and> state (heap (run_microtask (fst (then' (fst (Promise_race empty_world (Iterable []))) 0
               (User 1 Inr) (User 2 Inr)))) 0) = PEDDING
   \<and> snd (Promise_any ecma262_AggregateError empty_world (Iterable []))
        = Inl (TypeError ''undefined is not iterable (cannot read property Symbol(Symbol.iterator))'')"
proof -
  let ?w1 = "fst (Promise_race empty_world (Iterable []))"
  let ?w2 = "fst (then' ?w1 0 (User 1 Inr) (User 2 Inr))"
  have n: "nextPromise empty_world = 0" by (simp add: empty_world_def)
  have c: "no_capability 0 empty_world"
    by (simp add: no_capability_def empty_world_def initValue_def)
  have "step_without 0 ?w1 ?w2" by (rule without_then) simp_all
  moreover have "step_without 0 ?w2 (run_microtask ?w2)" by (rule without_microtask)
  ultimately have s: "(step_without 0)\<^sup>*\<^sup>* ?w1 (run_microtask ?w2)"
    by (meson r_into_rtranclp rtranclp.rtrancl_into_rtrancl)
  show ?thesis
    using c s empty_collection[of empty_world "run_microtask ?w2"] n by simp
qed

section \<open>The subscriptions of a call of \<open>all\<close>\<close>

lemma lookup_array_set:
  "lookup (array_set xs i v) j = (if j = i then Some v else lookup xs j)"
  by (auto simp: lookup_def array_set_def nth_append)

lemma length_array_set: "length (array_set xs i v) = max (length xs) (Suc i)"
  by (auto simp: array_set_def)

lemma stored_count_array_set:
  assumes "lookup xs i = None"
  shows "stored_count (array_set xs i v) = Suc (stored_count xs)"
proof (cases "i < length xs")
  case False
  then show ?thesis by (simp add: array_set_def stored_count_def)
next
  case True
  then have n: "xs ! i = None" using assms by (simp add: lookup_def)
  have xs: "xs = take i xs @ None # drop (Suc i) xs"
    using True n by (metis id_take_nth_drop)
  have "xs[i := Some v] = take i xs @ Some v # drop (Suc i) xs"
    using True by (simp add: upd_conv_take_nth_drop)
  then have "stored_count (xs[i := Some v]) = Suc (stored_count (take i xs @ None # drop (Suc i) xs))"
    by (simp add: stored_count_def)
  then show ?thesis using True xs by (simp add: array_set_def)
qed

lemma stored_count_le: "stored_count xs \<le> length xs"
  by (simp add: stored_count_def)

lemma stored_count_full:
  assumes "stored_count xs = length xs" and "i < length xs"
  shows "lookup xs i \<noteq> None"
proof
  assume "lookup xs i = None"
  then have "xs ! i = None" using assms(2) by (simp add: lookup_def)
  moreover have "xs ! i \<in> set xs" using assms(2) by (rule nth_mem)
  ultimately have "length (filter (\<lambda>x. x \<noteq> None) xs) < length xs"
    by (intro length_filter_less[of "xs ! i"]) simp_all
  then show False using assms(1) by (simp add: stored_count_def)
qed

lemma keeps_refl: "keeps r c n qs w w"
  by (simp add: keeps_def)

lemma keeps_trans: "keeps r c n qs w1 w2 \<Longrightarrow> keeps r c n qs w2 w3 \<Longrightarrow> keeps r c n qs w1 w3"
  by (simp add: keeps_def)

lemma joined_parts:
  assumes "joined r c n qs w"
  shows "bounds_ok r c n qs w" and "cell_ok c qs w" and "queue_ok r c n qs w"
    and "waiting_ok r c n qs w" and "result_ok r c n qs w"
  using assms by (simp_all add: joined_def subscribed_def)

lemma subscribed_parts:
  assumes "subscribed r c n qs w"
  shows "bounds_ok r c n qs w" and "cell_ok c qs w" and "queue_ok r c n qs w"
    and "waiting_ok r c n qs w"
  using assms by (simp_all add: subscribed_def)

lemma input_address:
  assumes "bounds_ok r c n qs w" and "i < length qs"
  shows "qs ! i < nextPromise w" and "qs ! i \<noteq> r"
  using assms nth_mem[OF assms(2)] unfolding bounds_ok_def by blast+

text \<open>
  A change of the store that leaves the queue, the cell and every promise as they are,
  except promises that are not inputs and that it leaves without callbacks.
\<close>

lemma joined_same:
  assumes J: "joined r c n qs w"
    and np: "nextPromise w \<le> nextPromise w'" and nc: "nextCell w \<le> nextCell w'"
    and ce: "cells w' c = cells w c" and mt: "microtasks w' = microtasks w"
    and hp: "\<forall>p. heap w' p = heap w p \<or>
                 p \<notin> set qs \<and> p \<noteq> r \<and>
                 fulfilledCallbacks (heap w' p) = [] \<and> rejectedCallbacks (heap w' p) = []"
  shows "joined r c n qs w'"
proof -
  note P = joined_parts[OF J]
  have hq: "heap w' (qs ! i) = heap w (qs ! i)" if "i < length qs" for i
    using hp nth_mem[OF that] by blast
  have hr: "heap w' r = heap w r" using hp by blast
  have 1: "bounds_ok r c n qs w'"
    using P(1) np nc unfolding bounds_ok_def by (meson less_le_trans)
  have 2: "cell_ok c qs w'"
    using P(2) hq unfolding cell_ok_def ce by simp
  have 3: "queue_ok r c n qs w'"
    using P(3) hq unfolding queue_ok_def ce mt by (simp cong: conj_cong)
  have 4: "waiting_ok r c n qs w'"
    unfolding waiting_ok_def
  proof (intro conjI allI impI)
    fix p assume p: "state (heap w' p) = PEDDING"
    show "\<forall>th \<in> set (fulfilledCallbacks (heap w' p)). relevant r c (thunk_task th) \<longrightarrow>
           (\<exists>i < length qs. qs ! i = p \<and> fulfilled_subscription r c n qs i (thunk_task th))"
      using hp[rule_format, of p] p P(4) unfolding waiting_ok_def by auto
    show "\<forall>th \<in> set (rejectedCallbacks (heap w' p)). relevant r c (thunk_task th) \<longrightarrow>
           (\<exists>i < length qs. qs ! i = p \<and> rejected_subscription r qs i (thunk_task th))"
      using hp[rule_format, of p] p P(4) unfolding waiting_ok_def by auto
  next
    fix i assume i: "i < length qs" "state (heap w' (qs ! i)) = PEDDING"
    then show "length (filter (\<lambda>th. task_handler (thunk_task th) = AllFulfilled c i n r)
                  (fulfilledCallbacks (heap w' (qs ! i)))) = 1"
      and "\<exists>th \<in> set (rejectedCallbacks (heap w' (qs ! i))).
           task_handler (thunk_task th) = EntryReject r"
      using P(4) unfolding waiting_ok_def hq[OF i(1)] by blast+
  qed
  have 5: "result_ok r c n qs w'"
    using P(5) hq unfolding result_ok_def ce mt hr by (simp cong: conj_cong)
  show ?thesis using 1 2 3 4 5 by (simp add: joined_def subscribed_def)
qed

lemma keeps_emit: "keeps r c n qs w (emit w e)"
  unfolding keeps_def by (intro impI, erule joined_same) (simp_all add: emit_def)

lemma keeps_new_guard:
  "keeps r c n qs w (w\<lparr>guards := (guards w)(nextGuard w := b), nextGuard := Suc (nextGuard w)\<rparr>)"
  unfolding keeps_def by (intro impI, erule joined_same) simp_all

lemma keeps_set_guard: "keeps r c n qs w (w\<lparr>guards := (guards w)(g := True)\<rparr>)"
  unfolding keeps_def by (intro impI, erule joined_same) simp_all

lemma keeps_cell: "c' \<noteq> c \<Longrightarrow> keeps r c n qs w (w\<lparr>cells := (cells w)(c' := x)\<rparr>)"
  unfolding keeps_def by (intro impI, erule joined_same) simp_all

lemma keeps_new_cell: "keeps r c n qs w (fst (new_cell w))"
  unfolding keeps_def
proof
  assume J: "joined r c n qs w"
  then have "c < nextCell w" by (simp add: joined_def subscribed_def bounds_ok_def)
  then show "joined r c n qs (fst (new_cell w))"
    by (intro joined_same[OF J]) (simp_all add: new_cell_def)
qed

lemma keeps_alloc: "keeps r c n qs w (fst (alloc w))"
  unfolding keeps_def
proof
  assume J: "joined r c n qs w"
  then have b: "r < nextPromise w" "\<forall>q \<in> set qs. q < nextPromise w"
    by (simp_all add: joined_def subscribed_def bounds_ok_def)
  then have "nextPromise w \<notin> set qs" "nextPromise w \<noteq> r" by auto
  then show "joined r c n qs (fst (alloc w))"
    by (intro joined_same[OF J]) (simp_all add: alloc_def initValue_def)
qed

lemma relevant_handler:
  "task_handler t = AllFulfilled c i n r \<Longrightarrow> relevant r c t"
  "task_handler t = EntryReject r \<Longrightarrow> relevant r c t"
  by (simp_all add: relevant_def concerns_def)

lemma count_append_map:
  "length (filter P (xs @ map f ys)) = length (filter P xs) + length (filter (\<lambda>y. P (f y)) ys)"
  by (simp add: filter_map comp_def)

text \<open>
  A pending promise is settled: its record changes, and the callbacks of the list that
  belongs to its new state are queued.
\<close>

lemma subscribed_settle:
  assumes S: "subscribed r c n qs w" and pe: "state (heap w p) = PEDDING"
    and hw: "heap w' = (heap w)(p := X)"
    and mt: "microtasks w' = microtasks w @ map thunk_task cbs"
    and ce: "cells w' = cells w" and np: "nextPromise w' = nextPromise w"
    and nc: "nextCell w' = nextCell w"
    and X: "state X \<noteq> PEDDING"
    and cf: "state X = FULFILLED \<Longrightarrow> cbs = fulfilledCallbacks (heap w p)"
    and cr: "state X = REJECTED \<Longrightarrow> cbs = rejectedCallbacks (heap w p)"
  shows "subscribed r c n qs w'"
proof -
  let ?k = "length qs" and ?res = "results (cells w c)"
  note P = subscribed_parts[OF S]
  have ho: "heap w' a = heap w a" if "a \<noteq> p" for a using that by (simp add: hw)
  have hs: "heap w' a = heap w a" if "state (heap w a) \<noteq> PEDDING" for a
    using that pe by (intro ho) auto
  have hX: "heap w' p = X" by (simp add: hw)
  have sX: "state X = FULFILLED \<or> state X = REJECTED" using X by (cases "state X") simp_all
  have none: "lookup ?res i = None" if "i < ?k" "qs ! i = p" for i
  proof (cases "lookup ?res i")
    case (Some v)
    then have "state (heap w (qs ! i)) = FULFILLED" using P(2) that(1) unfolding cell_ok_def by blast
    then show ?thesis using that(2) pe by simp
  qed simp
  have wf: "\<exists>i < ?k. qs ! i = p \<and> fulfilled_subscription r c n qs i (thunk_task th)"
    if "th \<in> set (fulfilledCallbacks (heap w p))" "relevant r c (thunk_task th)" for th
    using P(4) pe that unfolding waiting_ok_def by blast
  have wr: "\<exists>i < ?k. qs ! i = p \<and> rejected_subscription r qs i (thunk_task th)"
    if "th \<in> set (rejectedCallbacks (heap w p))" "relevant r c (thunk_task th)" for th
    using P(4) pe that unfolding waiting_ok_def by blast
  have q1: "\<exists>i < ?k. fulfilled_subscription r c n qs i t \<and> state (heap w (qs ! i)) = FULFILLED \<and>
             lookup ?res i = None \<or>
           rejected_subscription r qs i t \<and> state (heap w (qs ! i)) = REJECTED"
    if "t \<in> set (microtasks w)" "relevant r c t" for t
    using P(3) that unfolding queue_ok_def by blast
  have 1: "bounds_ok r c n qs w'"
    using P(1) unfolding bounds_ok_def np nc by simp
  have 2: "cell_ok c qs w'"
    unfolding cell_ok_def ce
  proof (intro conjI allI impI)
    show "total (cells w c) = stored_count ?res" "length ?res \<le> ?k"
      using P(2) unfolding cell_ok_def by blast+
    fix i v assume i: "i < ?k" "lookup ?res i = Some v"
    then have a: "state (heap w (qs ! i)) = FULFILLED \<and> v = value' (heap w (qs ! i))"
      using P(2) unfolding cell_ok_def by blast
    then have "heap w' (qs ! i) = heap w (qs ! i)" by (intro hs) simp
    then show "state (heap w' (qs ! i)) = FULFILLED" "v = value' (heap w' (qs ! i))"
      using a by simp_all
  qed
  have 3: "queue_ok r c n qs w'"
    unfolding queue_ok_def ce mt
  proof (intro conjI ballI allI impI)
    fix t assume t: "t \<in> set (microtasks w @ map thunk_task cbs)" "relevant r c t"
    show "\<exists>i < ?k. fulfilled_subscription r c n qs i t \<and> state (heap w' (qs ! i)) = FULFILLED \<and>
             lookup ?res i = None \<or>
           rejected_subscription r qs i t \<and> state (heap w' (qs ! i)) = REJECTED"
    proof (cases "t \<in> set (microtasks w)")
      case True
      then obtain i where i: "i < ?k"
        "fulfilled_subscription r c n qs i t \<and> state (heap w (qs ! i)) = FULFILLED \<and>
             lookup ?res i = None \<or>
           rejected_subscription r qs i t \<and> state (heap w (qs ! i)) = REJECTED"
        using q1[OF True t(2)] by blast
      then have "heap w' (qs ! i) = heap w (qs ! i)" by (intro hs) auto
      then show ?thesis using i by auto
    next
      case False
      then obtain th where th: "th \<in> set cbs" "t = thunk_task th" using t(1) by auto
      show ?thesis using sX
      proof
        assume f: "state X = FULFILLED"
        then obtain i where "i < ?k" "qs ! i = p" "fulfilled_subscription r c n qs i t"
          using wf[of th] th t(2) cf by auto
        then show ?thesis using none f hX by auto
      next
        assume f: "state X = REJECTED"
        then obtain i where "i < ?k" "qs ! i = p" "rejected_subscription r qs i t"
          using wr[of th] th t(2) cr by auto
        then show ?thesis using f hX by auto
      qed
    qed
  next
    fix i assume i: "i < ?k" "state (heap w' (qs ! i)) = FULFILLED \<and> lookup ?res i = None"
    let ?h = "AllFulfilled c i n r"
    show "length (filter (\<lambda>t. task_handler t = ?h) (microtasks w @ map thunk_task cbs)) = 1"
    proof (cases "qs ! i = p")
      case True
      then have f: "state X = FULFILLED" using i(2) hX by simp
      have "filter (\<lambda>t. task_handler t = ?h) (microtasks w) = []"
      proof (rule ccontr)
        assume "filter (\<lambda>t. task_handler t = ?h) (microtasks w) \<noteq> []"
        then obtain t where t: "t \<in> set (microtasks w)" "task_handler t = ?h"
          by (meson filter_False)
        then obtain j where j: "j < ?k"
          "fulfilled_subscription r c n qs j t \<and> state (heap w (qs ! j)) = FULFILLED \<and>
             lookup ?res j = None \<or>
           rejected_subscription r qs j t \<and> state (heap w (qs ! j)) = REJECTED"
          using q1[OF t(1) relevant_handler(1)[OF t(2)]] by blast
        then have "j = i \<and> state (heap w (qs ! j)) = FULFILLED"
          using t(2) by (auto simp: fulfilled_subscription_def rejected_subscription_def)
        then show False using True pe by auto
      qed
      moreover have "length (filter (\<lambda>th. task_handler (thunk_task th) = ?h) cbs) = 1"
        using P(4) i(1) True pe cf[OF f] unfolding waiting_ok_def by auto
      ultimately show ?thesis unfolding count_append_map by simp
    next
      case False
      then have e: "heap w' (qs ! i) = heap w (qs ! i)" by (rule ho)
      then have "length (filter (\<lambda>t. task_handler t = ?h) (microtasks w)) = 1"
        using P(3) i unfolding queue_ok_def by auto
      moreover have "filter (\<lambda>th. task_handler (thunk_task th) = ?h) cbs = []"
      proof (rule ccontr)
        assume "filter (\<lambda>th. task_handler (thunk_task th) = ?h) cbs \<noteq> []"
        then obtain th where th: "th \<in> set cbs" "task_handler (thunk_task th) = ?h"
          by (meson filter_False)
        note rl = relevant_handler(1)[OF th(2)]
        show False using sX
        proof
          assume f: "state X = FULFILLED"
          then obtain j where "j < ?k" "qs ! j = p" "fulfilled_subscription r c n qs j (thunk_task th)"
            using wf[of th] th(1) rl cf by auto
          then show False using th(2) False by (auto simp: fulfilled_subscription_def)
        next
          assume f: "state X = REJECTED"
          then obtain j where "j < ?k" "qs ! j = p" "rejected_subscription r qs j (thunk_task th)"
            using wr[of th] th(1) rl cr by auto
          then show False using th(2) by (auto simp: rejected_subscription_def)
        qed
      qed
      ultimately show ?thesis unfolding count_append_map by simp
    qed
  qed
  have 4: "waiting_ok r c n qs w'"
    unfolding waiting_ok_def
  proof (intro conjI allI impI)
    fix a assume a: "state (heap w' a) = PEDDING"
    then have "a \<noteq> p" using hX X by auto
    then have e: "heap w' a = heap w a" by (rule ho)
    show "\<forall>th \<in> set (fulfilledCallbacks (heap w' a)). relevant r c (thunk_task th) \<longrightarrow>
           (\<exists>i < ?k. qs ! i = a \<and> fulfilled_subscription r c n qs i (thunk_task th))"
      and "\<forall>th \<in> set (rejectedCallbacks (heap w' a)). relevant r c (thunk_task th) \<longrightarrow>
           (\<exists>i < ?k. qs ! i = a \<and> rejected_subscription r qs i (thunk_task th))"
      using P(4) a unfolding waiting_ok_def e by blast+
  next
    fix i assume i: "i < ?k" "state (heap w' (qs ! i)) = PEDDING"
    then have "qs ! i \<noteq> p" using hX X by auto
    then have e: "heap w' (qs ! i) = heap w (qs ! i)" by (rule ho)
    show "length (filter (\<lambda>th. task_handler (thunk_task th) = AllFulfilled c i n r)
                  (fulfilledCallbacks (heap w' (qs ! i)))) = 1"
      and "\<exists>th \<in> set (rejectedCallbacks (heap w' (qs ! i))).
           task_handler (thunk_task th) = EntryReject r"
      using P(4) i unfolding waiting_ok_def e by blast+
  qed
  show ?thesis using 1 2 3 4 by (simp add: subscribed_def)
qed

lemma joined_settle:
  assumes J: "joined r c n qs w" and pr: "p \<noteq> r" and pe: "state (heap w p) = PEDDING"
    and hw: "heap w' = (heap w)(p := X)"
    and mt: "microtasks w' = microtasks w @ map thunk_task cbs"
    and ce: "cells w' = cells w" and np: "nextPromise w' = nextPromise w"
    and nc: "nextCell w' = nextCell w"
    and X: "state X \<noteq> PEDDING"
    and cf: "state X = FULFILLED \<Longrightarrow> cbs = fulfilledCallbacks (heap w p)"
    and cr: "state X = REJECTED \<Longrightarrow> cbs = rejectedCallbacks (heap w p)"
  shows "joined r c n qs w'"
proof -
  let ?k = "length qs" and ?res = "results (cells w c)"
  note P = joined_parts[OF J]
  have S: "subscribed r c n qs w'"
    by (rule subscribed_settle[OF _ pe hw mt ce np nc X cf cr]) (use J in \<open>simp_all add: joined_def\<close>)
  have ho: "heap w' a = heap w a" if "a \<noteq> p" for a using that by (simp add: hw)
  have hs: "heap w' a = heap w a" if "state (heap w a) \<noteq> PEDDING" for a
    using that pe by (intro ho) auto
  have hX: "heap w' p = X" by (simp add: hw)
  have hr: "heap w' r = heap w r" using pr by (simp add: hw)
  have 5: "result_ok r c n qs w'"
    unfolding result_ok_def ce mt hr
  proof (intro conjI allI impI)
    assume a: "state (heap w r) = PEDDING"
    then show "stored_count ?res < n" using P(5) unfolding result_ok_def by blast
    assume "\<exists>i < ?k. state (heap w' (qs ! i)) = REJECTED"
    then obtain i where i: "i < ?k" "state (heap w' (qs ! i)) = REJECTED" by blast
    show "\<exists>t \<in> set (microtasks w @ map thunk_task cbs). task_handler t = EntryReject r"
    proof (cases "qs ! i = p")
      case False
      then have "state (heap w (qs ! i)) = REJECTED" using i(2) ho by simp
      then show ?thesis using P(5) a i(1) unfolding result_ok_def by auto
    next
      case True
      then have f: "state X = REJECTED" using i(2) hX by simp
      have "\<exists>th \<in> set (rejectedCallbacks (heap w p)). task_handler (thunk_task th) = EntryReject r"
        using P(4) i(1) True pe unfolding waiting_ok_def by auto
      then show ?thesis using cr[OF f] by auto
    qed
  next
    assume "state (heap w r) = FULFILLED"
    then show "stored_count ?res = n" "value' (heap w r) = ArrayRef c"
      using P(5) unfolding result_ok_def by blast+
  next
    assume "state (heap w r) = REJECTED"
    then obtain i where i: "i < ?k" "state (heap w (qs ! i)) = REJECTED"
      "reason (heap w r) = reason (heap w (qs ! i))"
      using P(5) unfolding result_ok_def by blast
    then have "heap w' (qs ! i) = heap w (qs ! i)" by (intro hs) simp
    then show "\<exists>i < ?k. state (heap w' (qs ! i)) = REJECTED \<and>
                 reason (heap w r) = reason (heap w' (qs ! i))"
      using i by auto
  qed
  show ?thesis using S 5 by (simp add: joined_def)
qed

lemma keeps_resolve: "p \<noteq> r \<Longrightarrow> keeps r c n qs w (resolve w p v)"
  unfolding keeps_def
proof
  assume pr: "p \<noteq> r" and J: "joined r c n qs w"
  show "joined r c n qs (resolve w p v)"
  proof (cases "state (heap w p) = PEDDING")
    case False
    then show ?thesis using J by (simp add: resolve_eq)
  next
    case True
    show ?thesis
      by (rule joined_settle[OF J pr True, where cbs = "fulfilledCallbacks (heap w p)"
            and X = "(heap w p)\<lparr>value' := v, state := FULFILLED, fulfilledCallbacks := []\<rparr>"])
         (simp_all add: resolve_eq True)
  qed
qed

lemma keeps_reject: "p \<noteq> r \<Longrightarrow> keeps r c n qs w (reject w p v)"
  unfolding keeps_def
proof
  assume pr: "p \<noteq> r" and J: "joined r c n qs w"
  show "joined r c n qs (reject w p v)"
  proof (cases "state (heap w p) = PEDDING")
    case False
    then show ?thesis using J by (simp add: reject_eq)
  next
    case True
    show ?thesis
      by (rule joined_settle[OF J pr True, where cbs = "rejectedCallbacks (heap w p)"
            and X = "(heap w p)\<lparr>reason := v, state := REJECTED, rejectedCallbacks := []\<rparr>"])
         (simp_all add: reject_eq True)
  qed
qed

lemma then_subscribe:
  "fst (then' w q h1 h2) =
     subscribe (fst (alloc w)) q
       (OnFulfilledTask q (case h1 of NotAFunction \<Rightarrow> PassValue | _ \<Rightarrow> h1) (nextPromise w))
       (OnRejectedTask q (case h2 of NotAFunction \<Rightarrow> ThrowReason | _ \<Rightarrow> h2) (nextPromise w))"
  by (simp add: then_eq subscribe_def alloc_def Let_def split: pstate.splits)

lemma subscribe_fields:
  "cells (subscribe w q tf tr) = cells w"
  "nextPromise (subscribe w q tf tr) = nextPromise w"
  "nextCell (subscribe w q tf tr) = nextCell w"
  "state (heap (subscribe w q tf tr) a) = state (heap w a)"
  "value' (heap (subscribe w q tf tr) a) = value' (heap w a)"
  "reason (heap (subscribe w q tf tr) a) = reason (heap w a)"
  "a \<noteq> q \<Longrightarrow> heap (subscribe w q tf tr) a = heap w a"
  "state (heap w q) \<noteq> PEDDING \<Longrightarrow> heap (subscribe w q tf tr) = heap w"
  "microtasks (subscribe w q tf tr) = microtasks w @
     (case state (heap w q) of FULFILLED \<Rightarrow> [tf] | REJECTED \<Rightarrow> [tr] | PEDDING \<Rightarrow> [])"
  "fulfilledCallbacks (heap (subscribe w q tf tr) q) = fulfilledCallbacks (heap w q) @
     (if state (heap w q) = PEDDING then [QueueMicrotask tf] else [])"
  "rejectedCallbacks (heap (subscribe w q tf tr) q) = rejectedCallbacks (heap w q) @
     (if state (heap w q) = PEDDING then [QueueMicrotask tr] else [])"
  by (simp_all add: subscribe_def split: pstate.splits)

text \<open>A subscription that is not relevant to the call.\<close>

lemma keeps_subscribe:
  assumes nf: "\<not> relevant r c tf" and nr: "\<not> relevant r c tr"
  shows "keeps r c n qs w (subscribe w q tf tr)"
  unfolding keeps_def
proof
  assume J: "joined r c n qs w"
  let ?w = "subscribe w q tf tr"
  let ?k = "length qs" and ?res = "results (cells w c)"
  note P = joined_parts[OF J]
  note f = subscribe_fields[where w = w and q = q and tf = tf and tr = tr]
  let ?new = "case state (heap w q) of FULFILLED \<Rightarrow> [tf] | REJECTED \<Rightarrow> [tr] | PEDDING \<Rightarrow> []"
  have mt: "microtasks ?w = microtasks w @ ?new" by (rule f(9))
  have nn: "\<forall>t \<in> set ?new. \<not> relevant r c t" using nf nr by (simp split: pstate.splits)
  have fc: "\<exists>fn. fulfilledCallbacks (heap ?w a) = fulfilledCallbacks (heap w a) @ fn \<and>
              (\<forall>th \<in> set fn. \<not> relevant r c (thunk_task th))" for a
  proof (cases "a = q")
    case True
    show ?thesis unfolding True f(10) using nf
      by (intro exI[of _ "if state (heap w q) = PEDDING then [QueueMicrotask tf] else []"]) simp
  next
    case False
    show ?thesis unfolding f(7)[OF False] by (intro exI[of _ "[]"]) simp
  qed
  have rc: "\<exists>rn. rejectedCallbacks (heap ?w a) = rejectedCallbacks (heap w a) @ rn \<and>
              (\<forall>th \<in> set rn. \<not> relevant r c (thunk_task th))" for a
  proof (cases "a = q")
    case True
    show ?thesis unfolding True f(11) using nr
      by (intro exI[of _ "if state (heap w q) = PEDDING then [QueueMicrotask tr] else []"]) simp
  next
    case False
    show ?thesis unfolding f(7)[OF False] by (intro exI[of _ "[]"]) simp
  qed
  have 1: "bounds_ok r c n qs ?w"
    using P(1) unfolding bounds_ok_def f by simp
  have 2: "cell_ok c qs ?w"
    using P(2) unfolding cell_ok_def f by simp
  have 3: "queue_ok r c n qs ?w"
    unfolding queue_ok_def f(1,4) mt
  proof (intro conjI ballI allI impI)
    fix t assume t: "t \<in> set (microtasks w @ ?new)" "relevant r c t"
    then have "t \<in> set (microtasks w)" using nn by auto
    then show "\<exists>i < ?k. fulfilled_subscription r c n qs i t \<and> state (heap w (qs ! i)) = FULFILLED \<and>
             lookup ?res i = None \<or>
           rejected_subscription r qs i t \<and> state (heap w (qs ! i)) = REJECTED"
      using P(3) t(2) unfolding queue_ok_def by blast
  next
    fix i assume i: "i < ?k" "state (heap w (qs ! i)) = FULFILLED \<and> lookup ?res i = None"
    have "filter (\<lambda>t. task_handler t = AllFulfilled c i n r) ?new = []"
      using nn relevant_handler(1) by (auto simp: filter_empty_conv)
    then show "length (filter (\<lambda>t. task_handler t = AllFulfilled c i n r) (microtasks w @ ?new)) = 1"
      using P(3) i unfolding queue_ok_def by simp
  qed
  have 4: "waiting_ok r c n qs ?w"
    unfolding waiting_ok_def f(4)
  proof (intro conjI allI impI)
    fix a assume a: "state (heap w a) = PEDDING"
    obtain fn where fn: "fulfilledCallbacks (heap ?w a) = fulfilledCallbacks (heap w a) @ fn"
      "\<forall>th \<in> set fn. \<not> relevant r c (thunk_task th)" using fc by blast
    obtain rn where rn: "rejectedCallbacks (heap ?w a) = rejectedCallbacks (heap w a) @ rn"
      "\<forall>th \<in> set rn. \<not> relevant r c (thunk_task th)" using rc by blast
    show "\<forall>th \<in> set (fulfilledCallbacks (heap ?w a)). relevant r c (thunk_task th) \<longrightarrow>
           (\<exists>i < ?k. qs ! i = a \<and> fulfilled_subscription r c n qs i (thunk_task th))"
      using P(4) a fn(2) unfolding waiting_ok_def fn(1) by auto
    show "\<forall>th \<in> set (rejectedCallbacks (heap ?w a)). relevant r c (thunk_task th) \<longrightarrow>
           (\<exists>i < ?k. qs ! i = a \<and> rejected_subscription r qs i (thunk_task th))"
      using P(4) a rn(2) unfolding waiting_ok_def rn(1) by auto
  next
    fix i assume i: "i < ?k" "state (heap w (qs ! i)) = PEDDING"
    obtain fn where fn: "fulfilledCallbacks (heap ?w (qs ! i)) = fulfilledCallbacks (heap w (qs ! i)) @ fn"
      "\<forall>th \<in> set fn. \<not> relevant r c (thunk_task th)" using fc by blast
    obtain rn where rn: "rejectedCallbacks (heap ?w (qs ! i)) = rejectedCallbacks (heap w (qs ! i)) @ rn"
      "\<forall>th \<in> set rn. \<not> relevant r c (thunk_task th)" using rc by blast
    have "filter (\<lambda>th. task_handler (thunk_task th) = AllFulfilled c i n r) fn = []"
      using fn(2) relevant_handler(1) by (auto simp: filter_empty_conv)
    then show "length (filter (\<lambda>th. task_handler (thunk_task th) = AllFulfilled c i n r)
                  (fulfilledCallbacks (heap ?w (qs ! i)))) = 1"
      using P(4) i unfolding waiting_ok_def fn(1) by simp
    show "\<exists>th \<in> set (rejectedCallbacks (heap ?w (qs ! i))).
           task_handler (thunk_task th) = EntryReject r"
      using P(4) i unfolding waiting_ok_def rn(1) by auto
  qed
  have 5: "result_ok r c n qs ?w"
    using P(5) unfolding result_ok_def f(1,4,5,6) mt by auto
  show "joined r c n qs ?w" using 1 2 3 4 5 by (simp add: joined_def subscribed_def)
qed

lemma default_concerns:
  "concerns r c (case h of NotAFunction \<Rightarrow> PassValue | _ \<Rightarrow> h) = concerns r c h"
  "concerns r c (case h of NotAFunction \<Rightarrow> ThrowReason | _ \<Rightarrow> h) = concerns r c h"
  by (cases h; simp add: concerns_def)+

lemma keeps_then:
  assumes "\<not> concerns r c h1" and "\<not> concerns r c h2"
  shows "keeps r c n qs w (fst (then' w q h1 h2))"
proof (cases "joined r c n qs w")
  case False
  then show ?thesis by (simp add: keeps_def)
next
  case True
  then have d: "nextPromise w \<noteq> r" by (auto simp: joined_def subscribed_def bounds_ok_def)
  show ?thesis
    unfolding then_subscribe
    by (rule keeps_trans[OF keeps_alloc keeps_subscribe])
       (simp_all add: relevant_def default_concerns assms d)
qed

lemma keeps_resolution:
  "promise \<noteq> r \<Longrightarrow> keeps r c n qs w (resolvePromise w promise x)"
  "callback_target cb \<noteq> r \<Longrightarrow> keeps r c n qs w (call_callback w cb v)"
  "callback_target f \<noteq> r \<Longrightarrow> callback_target g \<noteq> r \<Longrightarrow> keeps r c n qs w (call_fun w f g calls)"
  by (rule resolution_rel[where R = "keeps r c n qs" and T = "\<lambda>p. p \<noteq> r"];
      (rule keeps_refl keeps_emit keeps_new_guard keeps_set_guard
       | erule (1) keeps_trans | erule keeps_resolve | erule keeps_reject
       | (rule keeps_then; simp add: concerns_def) | assumption))+

text \<open>
  The subscription of the call at the next index, on the promise \<open>q\<close> that stands for the
  input at that index.
\<close>

lemma joined_extend:
  assumes J: "joined r c n qs w" and k: "length qs < n"
    and q: "q < nextPromise w" "q \<noteq> r" and d: "d \<noteq> r"
    and tf: "tf = OnFulfilledTask q (AllFulfilled c (length qs) n r) d"
    and tr: "tr = OnRejectedTask q (EntryReject r) d"
  shows "joined r c n (qs @ [q]) (subscribe w q tf tr)"
proof -
  let ?w = "subscribe w q tf tr"
  let ?k = "length qs" and ?res = "results (cells w c)" and ?qs = "qs @ [q]"
  note P = joined_parts[OF J]
  note f = subscribe_fields[where w = w and q = q and tf = tf and tr = tr]
  let ?new = "case state (heap w q) of FULFILLED \<Rightarrow> [tf] | REJECTED \<Rightarrow> [tr] | PEDDING \<Rightarrow> []"
  have mt: "microtasks ?w = microtasks w @ ?new" by (rule f(9))
  have old: "?qs ! i = qs ! i" if "i < ?k" for i using that by (simp add: nth_append)
  have new: "?qs ! ?k = q" by simp
  have sf: "fulfilled_subscription r c n ?qs i t = fulfilled_subscription r c n qs i t"
    and sr: "rejected_subscription r ?qs i t = rejected_subscription r qs i t" if "i < ?k" for i t
    using old[OF that] by (simp_all add: fulfilled_subscription_def rejected_subscription_def)
  have nf: "fulfilled_subscription r c n ?qs ?k tf" and nr: "rejected_subscription r ?qs ?k tr"
    using d by (simp_all add: fulfilled_subscription_def rejected_subscription_def tf tr)
  have hf: "task_handler tf = AllFulfilled c ?k n r" and hr: "task_handler tr = EntryReject r"
    by (simp_all add: tf tr)
  have lr: "length ?res \<le> ?k" using P(2) unfolding cell_ok_def by blast
  have nk: "lookup ?res ?k = None" using lr by (simp add: lookup_def)
  have q1: "\<exists>i < ?k. fulfilled_subscription r c n qs i t \<and> state (heap w (qs ! i)) = FULFILLED \<and>
             lookup ?res i = None \<or>
           rejected_subscription r qs i t \<and> state (heap w (qs ! i)) = REJECTED"
    if "t \<in> set (microtasks w)" "relevant r c t" for t
    using P(3) that unfolding queue_ok_def by blast
  have less: "i < Suc ?k \<longleftrightarrow> i < ?k \<or> i = ?k" for i by auto
  have 1: "bounds_ok r c n ?qs ?w"
    using P(1) k q unfolding bounds_ok_def f by auto
  have 2: "cell_ok c ?qs ?w"
    unfolding cell_ok_def f
  proof (intro conjI allI impI)
    show "total (cells w c) = stored_count ?res" using P(2) unfolding cell_ok_def by blast
    show "length ?res \<le> length ?qs" using lr by simp
    fix i v assume i: "i < length ?qs" "lookup ?res i = Some v"
    then have ik: "i < ?k" using nk by (cases "i = ?k") auto
    show "state (heap w (?qs ! i)) = FULFILLED" "v = value' (heap w (?qs ! i))"
      unfolding old[OF ik] using P(2) ik i(2) unfolding cell_ok_def by blast+
  qed
  have 3: "queue_ok r c n ?qs ?w"
    unfolding queue_ok_def f(1,4) mt
  proof (intro conjI ballI allI impI)
    fix t assume t: "t \<in> set (microtasks w @ ?new)" "relevant r c t"
    show "\<exists>i < length ?qs. fulfilled_subscription r c n ?qs i t \<and>
             state (heap w (?qs ! i)) = FULFILLED \<and> lookup ?res i = None \<or>
           rejected_subscription r ?qs i t \<and> state (heap w (?qs ! i)) = REJECTED"
    proof (cases "t \<in> set (microtasks w)")
      case True
      then obtain i where i: "i < ?k"
        "fulfilled_subscription r c n qs i t \<and> state (heap w (qs ! i)) = FULFILLED \<and>
             lookup ?res i = None \<or>
           rejected_subscription r qs i t \<and> state (heap w (qs ! i)) = REJECTED"
        using q1[OF True t(2)] by blast
      show ?thesis
        by (rule exI[of _ i]) (use i in \<open>simp add: sf[OF i(1)] sr[OF i(1)] old[OF i(1)]\<close>)
    next
      case False
      then have "t \<in> set ?new" using t(1) by auto
      then have "t = tf \<and> state (heap w q) = FULFILLED \<or> t = tr \<and> state (heap w q) = REJECTED"
        by (cases "state (heap w q)") simp_all
      then show ?thesis using nf nr nk by (intro exI[of _ ?k]) auto
    qed
  next
    fix i assume i: "i < length ?qs" "state (heap w (?qs ! i)) = FULFILLED \<and> lookup ?res i = None"
    let ?h = "AllFulfilled c i n r"
    show "length (filter (\<lambda>t. task_handler t = ?h) (microtasks w @ ?new)) = 1"
    proof (cases "i = ?k")
      case False
      then have ik: "i < ?k" using i(1) by simp
      have "length (filter (\<lambda>t. task_handler t = ?h) (microtasks w)) = 1"
        using P(3) ik i(2) unfolding queue_ok_def old[OF ik] by blast
      moreover have "filter (\<lambda>t. task_handler t = ?h) ?new = []"
        using False hf hr by (simp split: pstate.splits)
      ultimately show ?thesis by simp
    next
      case True
      then have fq: "state (heap w q) = FULFILLED" using i(2) by simp
      have "filter (\<lambda>t. task_handler t = ?h) (microtasks w) = []"
      proof (rule ccontr)
        assume "filter (\<lambda>t. task_handler t = ?h) (microtasks w) \<noteq> []"
        then obtain t where t: "t \<in> set (microtasks w)" "task_handler t = ?h"
          by (meson filter_False)
        then obtain j where "j < ?k"
          "fulfilled_subscription r c n qs j t \<or> rejected_subscription r qs j t"
          using q1[OF t(1) relevant_handler(1)[OF t(2)]] by blast
        then show False using t(2) True
          by (auto simp: fulfilled_subscription_def rejected_subscription_def)
      qed
      then show ?thesis using fq hf True by simp
    qed
  qed
  have 4: "waiting_ok r c n ?qs ?w"
    unfolding waiting_ok_def f(4)
  proof (intro conjI allI impI)
    fix a assume a: "state (heap w a) = PEDDING"
    have of: "\<exists>i < length ?qs. ?qs ! i = a \<and> fulfilled_subscription r c n ?qs i (thunk_task th)"
      if th: "th \<in> set (fulfilledCallbacks (heap w a))" "relevant r c (thunk_task th)" for th
    proof -
      obtain i where i: "i < ?k" "qs ! i = a" "fulfilled_subscription r c n qs i (thunk_task th)"
        using P(4) a th unfolding waiting_ok_def by blast
      show ?thesis by (rule exI[of _ i]) (use i in \<open>simp add: sf[OF i(1)] old[OF i(1)]\<close>)
    qed
    have orr: "\<exists>i < length ?qs. ?qs ! i = a \<and> rejected_subscription r ?qs i (thunk_task th)"
      if th: "th \<in> set (rejectedCallbacks (heap w a))" "relevant r c (thunk_task th)" for th
    proof -
      obtain i where i: "i < ?k" "qs ! i = a" "rejected_subscription r qs i (thunk_task th)"
        using P(4) a th unfolding waiting_ok_def by blast
      show ?thesis by (rule exI[of _ i]) (use i in \<open>simp add: sr[OF i(1)] old[OF i(1)]\<close>)
    qed
    show "\<forall>th \<in> set (fulfilledCallbacks (heap ?w a)). relevant r c (thunk_task th) \<longrightarrow>
           (\<exists>i < length ?qs. ?qs ! i = a \<and> fulfilled_subscription r c n ?qs i (thunk_task th))"
    proof (cases "a = q")
      case False
      then show ?thesis using of by (simp add: f(7))
    next
      case True
      have "\<exists>i < length ?qs. ?qs ! i = q \<and> fulfilled_subscription r c n ?qs i tf"
        using nf by (intro exI[of _ ?k]) simp
      then show ?thesis using of a unfolding True f(10) by auto
    qed
    show "\<forall>th \<in> set (rejectedCallbacks (heap ?w a)). relevant r c (thunk_task th) \<longrightarrow>
           (\<exists>i < length ?qs. ?qs ! i = a \<and> rejected_subscription r ?qs i (thunk_task th))"
    proof (cases "a = q")
      case False
      then show ?thesis using orr by (simp add: f(7))
    next
      case True
      have "\<exists>i < length ?qs. ?qs ! i = q \<and> rejected_subscription r ?qs i tr"
        using nr by (intro exI[of _ ?k]) simp
      then show ?thesis using orr a unfolding True f(11) by auto
    qed
  next
    fix i assume i: "i < length ?qs" "state (heap w (?qs ! i)) = PEDDING"
    let ?h = "AllFulfilled c i n r"
    have "length (filter (\<lambda>th. task_handler (thunk_task th) = ?h)
                  (fulfilledCallbacks (heap ?w (?qs ! i)))) = 1 \<and>
          (\<exists>th \<in> set (rejectedCallbacks (heap ?w (?qs ! i))).
             task_handler (thunk_task th) = EntryReject r)"
    proof (cases "i = ?k")
      case False
      then have ik: "i < ?k" using i(1) by simp
      have o: "length (filter (\<lambda>th. task_handler (thunk_task th) = ?h)
                  (fulfilledCallbacks (heap w (qs ! i)))) = 1"
        "\<exists>th \<in> set (rejectedCallbacks (heap w (qs ! i))). task_handler (thunk_task th) = EntryReject r"
        using P(4) ik i(2) unfolding waiting_ok_def old[OF ik] by blast+
      show ?thesis
      proof (cases "qs ! i = q")
        case ne: False
        then show ?thesis using o unfolding old[OF ik] by (simp add: f(7))
      next
        case True
        show ?thesis unfolding old[OF ik] True f(10,11) using o False hf unfolding True by auto
      qed
    next
      case True
      then have pq: "state (heap w q) = PEDDING" using i(2) by simp
      have "filter (\<lambda>th. task_handler (thunk_task th) = ?h) (fulfilledCallbacks (heap w q)) = []"
      proof (rule ccontr)
        assume "filter (\<lambda>th. task_handler (thunk_task th) = ?h) (fulfilledCallbacks (heap w q)) \<noteq> []"
        then obtain th where th: "th \<in> set (fulfilledCallbacks (heap w q))"
          "task_handler (thunk_task th) = ?h"
          by (meson filter_False)
        then obtain j where "j < ?k" "fulfilled_subscription r c n qs j (thunk_task th)"
          using P(4) pq relevant_handler(1)[OF th(2)] unfolding waiting_ok_def by blast
        then show False using th(2) True by (auto simp: fulfilled_subscription_def)
      qed
      then show ?thesis unfolding True new f(10,11) using pq hf hr by simp
    qed
    then show "length (filter (\<lambda>th. task_handler (thunk_task th) = ?h)
                  (fulfilledCallbacks (heap ?w (?qs ! i)))) = 1"
      and "\<exists>th \<in> set (rejectedCallbacks (heap ?w (?qs ! i))).
             task_handler (thunk_task th) = EntryReject r"
      by blast+
  qed
  have 5: "result_ok r c n ?qs ?w"
    unfolding result_ok_def f(1,4,5,6) mt
  proof (intro conjI allI impI)
    assume a: "state (heap w r) = PEDDING"
    then show "stored_count ?res < n" using P(5) unfolding result_ok_def by blast
    assume "\<exists>i < length ?qs. state (heap w (?qs ! i)) = REJECTED"
    then obtain i where i: "i < length ?qs" "state (heap w (?qs ! i)) = REJECTED" by blast
    show "\<exists>t \<in> set (microtasks w @ ?new). task_handler t = EntryReject r"
    proof (cases "i = ?k")
      case False
      then have ik: "i < ?k" using i(1) by simp
      then have "\<exists>i < ?k. state (heap w (qs ! i)) = REJECTED" using i(2) old[OF ik] by auto
      then show ?thesis using P(5) a unfolding result_ok_def by auto
    next
      case True
      then have "state (heap w q) = REJECTED" using i(2) by simp
      then show ?thesis using hr by simp
    qed
  next
    assume "state (heap w r) = FULFILLED"
    then show "stored_count ?res = n" "value' (heap w r) = ArrayRef c"
      using P(5) unfolding result_ok_def by blast+
  next
    assume "state (heap w r) = REJECTED"
    then obtain i where i: "i < ?k" "state (heap w (qs ! i)) = REJECTED"
      "reason (heap w r) = reason (heap w (qs ! i))"
      using P(5) unfolding result_ok_def by blast
    show "\<exists>i < length ?qs. state (heap w (?qs ! i)) = REJECTED \<and>
                 reason (heap w r) = reason (heap w (?qs ! i))"
      by (rule exI[of _ i]) (use i in \<open>simp add: old[OF i(1)]\<close>)
  qed
  show ?thesis using 1 2 3 4 5 by (simp add: joined_def subscribed_def)
qed

section \<open>A turn of the scheduler\<close>

lemma undefined_primitive: "\<not> isObject JUndefined" "\<not> isFunction JUndefined"
  by (simp_all add: isObject_def)

text \<open>The first microtask leaves the queue; it is not one for fulfilment of the call.\<close>

lemma subscribed_pop:
  assumes S: "subscribed r c n qs w" and mt: "microtasks w = t # ts"
    and nh: "\<forall>i. task_handler t \<noteq> AllFulfilled c i n r"
    and hw: "heap w' = heap w" and mw: "microtasks w' = ts" and ce: "cells w' = cells w"
    and np: "nextPromise w' = nextPromise w" and nc: "nextCell w' = nextCell w"
  shows "subscribed r c n qs w'"
proof -
  note P = subscribed_parts[OF S]
  have 1: "bounds_ok r c n qs w'" using P(1) unfolding bounds_ok_def np nc by simp
  have 2: "cell_ok c qs w'" using P(2) unfolding cell_ok_def ce hw by simp
  have 3: "queue_ok r c n qs w'"
    using P(3) nh unfolding queue_ok_def ce hw mw mt by simp
  have 4: "waiting_ok r c n qs w'" using P(4) unfolding waiting_ok_def hw by simp
  show ?thesis using 1 2 3 4 by (simp add: subscribed_def)
qed

text \<open>
  The first microtask is the one for fulfilment at index \<open>i\<close>: it leaves the queue, the
  value of the input is stored at \<open>i\<close> and the counter goes up by one.
\<close>

lemma subscribed_store:
  assumes S: "subscribed r c n qs w" and mt: "microtasks w = t # ts"
    and i: "i < length qs" and ht: "task_handler t = AllFulfilled c i n r"
    and st: "state (heap w (qs ! i)) = FULFILLED" and nn: "lookup (results (cells w c)) i = None"
    and hw: "heap w' = heap w" and mw: "microtasks w' = ts"
    and ce: "cells w' c = (cells w c)\<lparr>results := array_set (results (cells w c)) i (value' (heap w (qs ! i))),
                                        total := Suc (total (cells w c))\<rparr>"
    and np: "nextPromise w' = nextPromise w" and nc: "nextCell w' = nextCell w"
  shows "subscribed r c n qs w'"
    and "stored_count (results (cells w' c)) = Suc (stored_count (results (cells w c)))"
proof -
  let ?k = "length qs" and ?res = "results (cells w c)" and ?v = "value' (heap w (qs ! i))"
  let ?h = "AllFulfilled c i n r"
  note P = subscribed_parts[OF S]
  have res: "results (cells w' c) = array_set ?res i ?v" "total (cells w' c) = Suc (total (cells w c))"
    by (simp_all add: ce)
  show sc: "stored_count (results (cells w' c)) = Suc (stored_count ?res)"
    unfolding res by (rule stored_count_array_set[OF nn])
  have "length (filter (\<lambda>t. task_handler t = ?h) (microtasks w)) = 1"
    using P(3) i st nn unfolding queue_ok_def by blast
  then have "filter (\<lambda>t. task_handler t = ?h) ts = []" using ht by (simp add: mt)
  then have once: "\<forall>t' \<in> set ts. task_handler t' \<noteq> ?h" by (simp add: filter_empty_conv)
  have 1: "bounds_ok r c n qs w'" using P(1) unfolding bounds_ok_def np nc by simp
  have 2: "cell_ok c qs w'"
    unfolding cell_ok_def res hw
  proof (intro conjI allI impI)
    show "Suc (total (cells w c)) = stored_count (array_set ?res i ?v)"
      using P(2) sc unfolding cell_ok_def res by simp
    show "length (array_set ?res i ?v) \<le> ?k"
      using P(2) i unfolding cell_ok_def by (simp add: length_array_set)
    fix j v assume j: "j < ?k" "lookup (array_set ?res i ?v) j = Some v"
    show "state (heap w (qs ! j)) = FULFILLED" "v = value' (heap w (qs ! j))"
      using P(2) j st unfolding cell_ok_def lookup_array_set by (auto split: if_splits)
  qed
  have 3: "queue_ok r c n qs w'"
    unfolding queue_ok_def res hw mw
  proof (intro conjI ballI allI impI)
    fix t' assume t': "t' \<in> set ts" "relevant r c t'"
    then obtain j where j: "j < ?k"
        "fulfilled_subscription r c n qs j t' \<and> state (heap w (qs ! j)) = FULFILLED \<and>
             lookup ?res j = None \<or>
           rejected_subscription r qs j t' \<and> state (heap w (qs ! j)) = REJECTED"
      using P(3) unfolding queue_ok_def mt by auto
    have "fulfilled_subscription r c n qs j t' \<Longrightarrow> j \<noteq> i"
      using once t'(1) by (auto simp: fulfilled_subscription_def)
    then show "\<exists>j < ?k. fulfilled_subscription r c n qs j t' \<and> state (heap w (qs ! j)) = FULFILLED \<and>
             lookup (array_set ?res i ?v) j = None \<or>
           rejected_subscription r qs j t' \<and> state (heap w (qs ! j)) = REJECTED"
      using j by (intro exI[of _ j]) (auto simp: lookup_array_set)
  next
    fix j assume j: "j < ?k"
      "state (heap w (qs ! j)) = FULFILLED \<and> lookup (array_set ?res i ?v) j = None"
    then have ji: "j \<noteq> i" "lookup ?res j = None" by (auto simp: lookup_array_set split: if_splits)
    then have "length (filter (\<lambda>t. task_handler t = AllFulfilled c j n r) (microtasks w)) = 1"
      using P(3) j unfolding queue_ok_def by blast
    then show "length (filter (\<lambda>t. task_handler t = AllFulfilled c j n r) ts) = 1"
      using ht ji(1) by (simp add: mt)
  qed
  have 4: "waiting_ok r c n qs w'" using P(4) unfolding waiting_ok_def hw by simp
  show "subscribed r c n qs w'" using 1 2 3 4 by (simp add: subscribed_def)
qed

lemma queued_subscription:
  assumes J: "joined r c n qs w" and mt: "microtasks w = t # ts" and rel: "relevant r c t"
  shows "\<exists>i < length qs. \<exists>d. d \<noteq> r \<and>
           (t = OnFulfilledTask (qs ! i) (AllFulfilled c i n r) d \<and>
              state (heap w (qs ! i)) = FULFILLED \<and> lookup (results (cells w c)) i = None \<or>
            t = OnRejectedTask (qs ! i) (EntryReject r) d \<and> state (heap w (qs ! i)) = REJECTED)"
proof -
  obtain i where i: "i < length qs"
      "fulfilled_subscription r c n qs i t \<and> state (heap w (qs ! i)) = FULFILLED \<and>
           lookup (results (cells w c)) i = None \<or>
       rejected_subscription r qs i t \<and> state (heap w (qs ! i)) = REJECTED"
    using joined_parts(3)[OF J] rel unfolding queue_ok_def mt by auto
  show ?thesis
    by (rule exI[of _ i], cases t)
       (use i in \<open>auto simp: fulfilled_subscription_def rejected_subscription_def\<close>)
qed

text \<open>The scheduler runs the microtask of a subscription of the call for fulfilment.\<close>

lemma joined_fulfilled_turn:
  assumes J: "joined r c n qs w"
    and mt: "microtasks w = OnFulfilledTask (qs ! i) (AllFulfilled c i n r) d # ts"
    and i: "i < length qs" and d: "d \<noteq> r"
    and st: "state (heap w (qs ! i)) = FULFILLED" and nn: "lookup (results (cells w c)) i = None"
  shows "joined r c n qs (run_microtask w)"
proof -
  let ?k = "length qs" and ?res = "results (cells w c)" and ?v = "value' (heap w (qs ! i))"
  let ?t = "OnFulfilledTask (qs ! i) (AllFulfilled c i n r) d"
  note P = joined_parts[OF J]
  have S: "subscribed r c n qs w" using J by (simp add: joined_def)
  define wA where "wA = w\<lparr>microtasks := ts,
     cells := (cells w)(c := (cells w c)\<lparr>results := array_set ?res i ?v,
                                         total := Suc (total (cells w c))\<rparr>)\<rparr>"
  define w1 where "w1 = (if Suc (total (cells w c)) = n then resolve wA r (ArrayRef c) else wA)"
  have run: "run_microtask w = resolve w1 d JUndefined"
    by (simp add: run_microtask_def mt store_and_count_eq resolvePromise_primitive
          undefined_primitive w1_def wA_def)
  have fA: "heap wA = heap w" "microtasks wA = ts" "nextPromise wA = nextPromise w"
    "nextCell wA = nextCell w"
    "cells wA c = (cells w c)\<lparr>results := array_set ?res i ?v, total := Suc (total (cells w c))\<rparr>"
    by (simp_all add: wA_def)
  note A = subscribed_store[OF S mt i _ st nn fA(1,2,5,3,4)]
  have SA: "subscribed r c n qs wA" by (rule A(1)) simp
  have cA: "stored_count (results (cells wA c)) = Suc (stored_count ?res)" by (rule A(2)) simp
  have tot: "total (cells w c) = stored_count ?res" and lr: "length ?res \<le> ?k"
    using P(2) unfolding cell_ok_def by blast+
  have kn: "?k \<le> n" using P(1) unfolding bounds_ok_def by blast
  have lt: "stored_count ?res < n"
  proof (rule ccontr)
    assume "\<not> stored_count ?res < n"
    then have "stored_count ?res = length ?res" "i < length ?res"
      using stored_count_le[of ?res] lr kn i by simp_all
    then show False using stored_count_full nn by blast
  qed
  have nf: "state (heap w r) \<noteq> FULFILLED" using P(5) lt unfolding result_ok_def by auto
  have RA: "result_ok r c n qs wA" if "Suc (total (cells w c)) \<noteq> n \<or> state (heap w r) \<noteq> PEDDING"
    unfolding result_ok_def fA(1,2) cA
  proof (intro conjI allI impI)
    assume a: "state (heap w r) = PEDDING"
    then show "Suc (stored_count ?res) < n" using that lt tot by simp
    assume "\<exists>j < ?k. state (heap w (qs ! j)) = REJECTED"
    then obtain t' where "t' \<in> set (microtasks w)" "task_handler t' = EntryReject r"
      using P(5) a unfolding result_ok_def by blast
    then show "\<exists>t' \<in> set ts. task_handler t' = EntryReject r" by (auto simp: mt)
  next
    assume "state (heap w r) = FULFILLED"
    then show "Suc (stored_count ?res) = n" "value' (heap w r) = ArrayRef c" using nf by simp_all
  next
    assume "state (heap w r) = REJECTED"
    then show "\<exists>j < ?k. state (heap w (qs ! j)) = REJECTED \<and>
                 reason (heap w r) = reason (heap w (qs ! j))"
      using P(5) unfolding result_ok_def by blast
  qed
  have J1: "joined r c n qs w1"
  proof (cases "Suc (total (cells w c)) = n \<and> state (heap w r) = PEDDING")
    case False
    then have "w1 = wA" by (auto simp: w1_def resolve_eq fA)
    then show ?thesis using SA RA False by (auto simp: joined_def)
  next
    case True
    let ?X = "(heap w r)\<lparr>value' := ArrayRef c, state := FULFILLED, fulfilledCallbacks := []\<rparr>"
    have pe: "state (heap wA r) = PEDDING" using True by (simp add: fA)
    have f1: "heap w1 = (heap wA)(r := ?X)"
      "microtasks w1 = microtasks wA @ map thunk_task (fulfilledCallbacks (heap wA r))"
      "cells w1 = cells wA" "nextPromise w1 = nextPromise wA" "nextCell w1 = nextCell wA"
      using True by (simp_all add: w1_def resolve_eq fA)
    have S1: "subscribed r c n qs w1"
      by (rule subscribed_settle[OF SA pe f1(1,2,3,4,5)]) simp_all
    have "result_ok r c n qs w1"
      unfolding result_ok_def f1 using True cA tot by simp
    then show ?thesis using S1 by (simp add: joined_def)
  qed
  show ?thesis unfolding run using keeps_resolve[OF d, of c n qs w1 JUndefined] J1
    by (simp add: keeps_def)
qed

text \<open>The scheduler runs the microtask of a subscription of the call for rejection.\<close>

lemma joined_rejected_turn:
  assumes J: "joined r c n qs w"
    and mt: "microtasks w = OnRejectedTask (qs ! i) (EntryReject r) d # ts"
    and i: "i < length qs" and d: "d \<noteq> r"
    and st: "state (heap w (qs ! i)) = REJECTED"
  shows "joined r c n qs (run_microtask w)"
proof -
  let ?k = "length qs" and ?e = "reason (heap w (qs ! i))"
  note P = joined_parts[OF J]
  have S: "subscribed r c n qs w" using J by (simp add: joined_def)
  define w0 where "w0 = w\<lparr>microtasks := ts\<rparr>"
  define w1 where "w1 = reject w0 r ?e"
  have run: "run_microtask w = resolve w1 d JUndefined"
    by (simp add: run_microtask_def mt resolvePromise_primitive undefined_primitive w1_def w0_def)
  have f0: "heap w0 = heap w" "microtasks w0 = ts" "cells w0 = cells w"
    "nextPromise w0 = nextPromise w" "nextCell w0 = nextCell w"
    by (simp_all add: w0_def)
  have S0: "subscribed r c n qs w0"
    by (rule subscribed_pop[OF S mt _ f0]) simp
  have qr: "qs ! i \<noteq> r" by (rule input_address(2)[OF P(1) i])
  have J1: "joined r c n qs w1"
  proof (cases "state (heap w r) = PEDDING")
    case False
    then have e: "w1 = w0" by (simp add: w1_def reject_eq f0)
    have "result_ok r c n qs w0"
      using P(5) False unfolding result_ok_def f0 by simp
    then show ?thesis using S0 e by (simp add: joined_def)
  next
    case True
    let ?X = "(heap w r)\<lparr>reason := ?e, state := REJECTED, rejectedCallbacks := []\<rparr>"
    have pe: "state (heap w0 r) = PEDDING" using True by (simp add: f0)
    have f1: "heap w1 = (heap w0)(r := ?X)"
      "microtasks w1 = microtasks w0 @ map thunk_task (rejectedCallbacks (heap w0 r))"
      "cells w1 = cells w0" "nextPromise w1 = nextPromise w0" "nextCell w1 = nextCell w0"
      using True by (simp_all add: w1_def reject_eq f0)
    have S1: "subscribed r c n qs w1"
      by (rule subscribed_settle[OF S0 pe f1(1,2,3,4,5)]) simp_all
    have "\<exists>j < ?k. state (heap w (qs ! j)) = REJECTED \<and> ?e = reason (heap w (qs ! j)) \<and> qs ! j \<noteq> r"
      using i st qr by blast
    then have "result_ok r c n qs w1"
      unfolding result_ok_def f1 f0 by auto
    then show ?thesis using S1 by (simp add: joined_def)
  qed
  show ?thesis unfolding run using keeps_resolve[OF d, of c n qs w1 JUndefined] J1
    by (simp add: keeps_def)
qed

text \<open>A handler that is not one of the call, and a microtask that is not one of the call.\<close>

lemma keeps_store_and_count:
  assumes "c' \<noteq> c" and "\<And>w. keeps r c n qs w (settle w)"
  shows "keeps r c n qs w (store_and_count w c' i v m settle)"
  unfolding store_and_count_eq
  using keeps_cell[OF assms(1)] keeps_trans[OF keeps_cell[OF assms(1)] assms(2)] by simp

lemma keeps_call_handler:
  "\<not> concerns r c h \<Longrightarrow> keeps r c n qs w (fst (call_handler w h v))"
  by (cases h)
     (simp_all add: concerns_def keeps_refl keeps_emit keeps_resolve keeps_reject
        keeps_resolution keeps_store_and_count)

lemma keeps_run_task:
  assumes "\<not> relevant r c t"
  shows "keeps r c n qs w (run_task w t)"
proof (cases t)
  case (OnFulfilledTask this h promise)
  obtain w1 res where e: "call_handler w h (value' (heap w this)) = (w1, res)"
    by (cases "call_handler w h (value' (heap w this))")
  have t: "\<not> concerns r c h" "promise \<noteq> r"
    using assms OnFulfilledTask by (auto simp: relevant_def)
  have "keeps r c n qs w w1"
    using keeps_call_handler[OF t(1), of n qs w "value' (heap w this)"] e by simp
  then show ?thesis using OnFulfilledTask e t(2)
    by (cases res) (auto intro: keeps_trans keeps_reject keeps_resolution)
next
  case (OnRejectedTask this h promise)
  obtain w1 res where e: "call_handler w h (reason (heap w this)) = (w1, res)"
    by (cases "call_handler w h (reason (heap w this))")
  have t: "\<not> concerns r c h" "promise \<noteq> r"
    using assms OnRejectedTask by (auto simp: relevant_def)
  have "keeps r c n qs w w1"
    using keeps_call_handler[OF t(1), of n qs w "reason (heap w this)"] e by simp
  then show ?thesis using OnRejectedTask e t(2)
    by (cases res) (auto intro: keeps_trans keeps_reject keeps_resolution)
qed

lemma keeps_pop:
  assumes mt: "microtasks w = t # ts" and nr: "\<not> relevant r c t"
  shows "keeps r c n qs w (w\<lparr>microtasks := ts\<rparr>)"
proof (cases "joined r c n qs w")
  case False
  then show ?thesis by (simp add: keeps_def)
next
  case True
  have S: "subscribed r c n qs w" using True by (simp add: joined_def)
  have h: "task_handler t \<noteq> EntryReject r" "\<forall>i. task_handler t \<noteq> AllFulfilled c i n r"
    using nr by (auto simp: relevant_def concerns_def)
  have 1: "subscribed r c n qs (w\<lparr>microtasks := ts\<rparr>)"
    by (rule subscribed_pop[OF S mt h(2)]) simp_all
  have 2: "result_ok r c n qs (w\<lparr>microtasks := ts\<rparr>)"
    using joined_parts(5)[OF True] h(1) unfolding result_ok_def mt by auto
  show ?thesis using 1 2 by (simp add: keeps_def joined_def)
qed

lemma keeps_run_microtask: "keeps r c n qs w (run_microtask w)"
proof (cases "joined r c n qs w")
  case False
  then show ?thesis by (simp add: keeps_def)
next
  case J: True
  show ?thesis
  proof (cases "microtasks w")
    case Nil
    then show ?thesis by (simp add: run_microtask_def keeps_refl)
  next
    case (Cons t ts)
    show ?thesis
    proof (cases "relevant r c t")
      case False
      show ?thesis using Cons keeps_trans[OF keeps_pop[OF Cons False] keeps_run_task[OF False]]
        by (simp add: run_microtask_def)
    next
      case True
      obtain i d where i: "i < length qs" "d \<noteq> r"
        "t = OnFulfilledTask (qs ! i) (AllFulfilled c i n r) d \<and>
              state (heap w (qs ! i)) = FULFILLED \<and> lookup (results (cells w c)) i = None \<or>
         t = OnRejectedTask (qs ! i) (EntryReject r) d \<and> state (heap w (qs ! i)) = REJECTED"
        using queued_subscription[OF J Cons True] by blast
      from i(3) have "joined r c n qs (run_microtask w)"
      proof
        assume a: "t = OnFulfilledTask (qs ! i) (AllFulfilled c i n r) d \<and>
              state (heap w (qs ! i)) = FULFILLED \<and> lookup (results (cells w c)) i = None"
        show ?thesis
          by (rule joined_fulfilled_turn[OF J _ i(1,2)]) (use a Cons in simp_all)
      next
        assume a: "t = OnRejectedTask (qs ! i) (EntryReject r) d \<and>
              state (heap w (qs ! i)) = REJECTED"
        show ?thesis
          by (rule joined_rejected_turn[OF J _ i(1,2)]) (use a Cons in simp_all)
      qed
      then show ?thesis by (simp add: keeps_def)
    qed
  qed
qed

section \<open>The library called by the program\<close>

lemma keeps_construct:
  assumes "\<And>w1 this. this \<noteq> r \<Longrightarrow> keeps r c n qs w1 (fst (executor w1 this))"
  shows "keeps r c n qs w (fst (construct w executor))"
proof (cases "joined r c n qs w")
  case False
  then show ?thesis by (simp add: keeps_def)
next
  case True
  let ?w1 = "fst (alloc w)"
  let ?new = "nextPromise w"
  obtain w2 thrown where e: "executor ?w1 ?new = (w2, thrown)" by (cases "executor ?w1 ?new")
  have n: "?new \<noteq> r" using True by (auto simp: joined_def subscribed_def bounds_ok_def)
  have 1: "keeps r c n qs w ?w1" by (rule keeps_alloc)
  have 2: "keeps r c n qs ?w1 w2" using assms[OF n, of ?w1] e by simp
  have 3: "keeps r c n qs w2 (reject w2 ?new err)" for err by (rule keeps_reject[OF n])
  show ?thesis using e keeps_trans[OF 1 2] keeps_trans[OF keeps_trans[OF 1 2] 3]
    by (simp add: construct_def alloc_def split: option.splits)
qed

lemma keeps_new_Promise: "keeps r c n qs w (fst (new_Promise w executor))"
proof (cases executor)
  case NotAnExecutor
  then show ?thesis by (simp add: new_Promise_def keeps_refl)
next
  case (Executor calls thrown)
  have "keeps r c n qs w (fst (construct w (\<lambda>w1 this. (call_fun w1 (Resolve this) (Reject this) calls, thrown))))"
    by (rule keeps_construct) (simp add: keeps_resolution)
  then show ?thesis using Executor by (simp add: new_Promise_def case_prod_beta)
qed

lemma keeps_deferred: "keeps r c n qs w (fst (deferred w))"
  unfolding deferred_def by (rule keeps_construct) (simp add: keeps_refl)

lemma keeps_Promise_reject: "keeps r c n qs w (fst (Promise_reject w e))"
  unfolding Promise_reject_def by (rule keeps_construct) (simp add: keeps_reject)

lemma keeps_Promise_resolve: "keeps r c n qs w (fst (Promise_resolve w v))"
proof -
  have 1: "keeps r c n qs w (fst (construct w (\<lambda>w1 this. (resolve w1 this v, None))))"
    by (rule keeps_construct) (simp add: keeps_resolve)
  have 2: "keeps r c n qs w (fst (construct (emit w (ReadThen v)) (\<lambda>w1 this. (resolve w1 this v, None))))"
    by (rule keeps_trans[OF keeps_emit], rule keeps_construct) (simp add: keeps_resolve)
  have 3: "keeps r c n qs w (fst (construct (emit w (ReadThen v)) (\<lambda>w1 this.
                       (call_fun (emit (emit w1 (ReadThen v)) (CallThen v))
                          (Resolve this) (Reject this) calls, thrown))))" for calls thrown
    by (rule keeps_trans[OF keeps_emit], rule keeps_construct)
       (simp add: keeps_trans[OF keeps_emit keeps_trans[OF keeps_emit keeps_resolution(3)]])
  show ?thesis using 1 2 3
    by (simp add: Promise_resolve_def keeps_refl keeps_emit
             case_prod_beta split: option.splits then_member.splits)
qed

lemma keeps_forEach_then:
  assumes "\<And>i. \<not> concerns r c (fst (hs i)) \<and> \<not> concerns r c (snd (hs i))"
  shows "keeps r c n qs w (fst (forEach_then hs w i ps))"
proof (induction ps arbitrary: w i)
  case Nil
  then show ?case by (simp add: keeps_refl)
next
  case (Cons p ps)
  obtain w1 res where e: "Promise_resolve w p = (w1, res)" by (cases "Promise_resolve w p")
  have 1: "keeps r c n qs w w1" using keeps_Promise_resolve[of r c n qs w p] e by simp
  show ?case
  proof (cases res)
    case (Inl e)
    then show ?thesis using \<open>Promise_resolve w p = (w1, res)\<close> 1 by simp
  next
    case (Inr q)
    have 2: "keeps r c n qs w1 (fst (then' w1 q (fst (hs i)) (snd (hs i))))"
      by (rule keeps_then) (simp_all add: assms)
    show ?thesis using e Inr
      by (simp add: keeps_trans[OF 1 keeps_trans[OF 2 Cons.IH]])
  qed
qed

lemma keeps_combinator:
  assumes "\<And>this i. this \<noteq> r \<Longrightarrow>
     \<not> concerns r c (fst (hs this i)) \<and> \<not> concerns r c (snd (hs this i))"
  shows "keeps r c n qs w (fst (construct w (\<lambda>w2 this. forEach_then (hs this) w2 0 ps)))"
  by (rule keeps_construct) (rule keeps_forEach_then, rule assms)

lemma new_cell_other:
  assumes "joined r c n qs w" and "new_cell w = (w1, c')"
  shows "c' \<noteq> c"
  using assms by (auto simp: new_cell_def joined_def subscribed_def bounds_ok_def)

lemma keeps_Promise_all: "keeps r c n qs w (fst (Promise_all w promises))"
proof (cases "joined r c n qs w")
  case False
  then show ?thesis by (simp add: keeps_def)
next
  case J: True
  show ?thesis
  proof (cases promises)
    case NotIterable
    then show ?thesis by (simp add: Promise_all_def keeps_refl)
  next
    case (Iterable ps)
    obtain w1 c' where e: "new_cell w = (w1, c')" by (cases "new_cell w")
    have cc: "c' \<noteq> c" by (rule new_cell_other[OF J e])
    have 1: "keeps r c n qs w w1" using keeps_new_cell[of r c n qs w] e by simp
    have 2: "keeps r c n qs w1 (fst (construct w1 (\<lambda>w2 this.
               forEach_then (\<lambda>i. (AllFulfilled c' i (length ps) this, EntryReject this)) w2 0 ps)))"
      by (rule keeps_combinator[where hs = "\<lambda>this i. (AllFulfilled c' i (length ps) this, EntryReject this)"])
         (simp add: concerns_def cc)
    show ?thesis using Iterable e keeps_trans[OF 1 keeps_Promise_resolve] keeps_trans[OF 1 2]
      by (simp add: Promise_all_def case_prod_beta)
  qed
qed

lemma keeps_Promise_allSettled: "keeps r c n qs w (fst (Promise_allSettled w promises))"
proof (cases "joined r c n qs w")
  case False
  then show ?thesis by (simp add: keeps_def)
next
  case J: True
  show ?thesis
  proof (cases promises)
    case NotIterable
    then show ?thesis by (simp add: Promise_allSettled_def keeps_refl)
  next
    case (Iterable ps)
    obtain w1 c' where e: "new_cell w = (w1, c')" by (cases "new_cell w")
    have cc: "c' \<noteq> c" by (rule new_cell_other[OF J e])
    have 1: "keeps r c n qs w w1" using keeps_new_cell[of r c n qs w] e by simp
    have 2: "keeps r c n qs w1 (fst (construct w1 (\<lambda>w2 this.
               forEach_then (\<lambda>i. (SettledFulfilled c' i (length ps) this,
                                   SettledRejected c' i (length ps) this)) w2 0 ps)))"
      by (rule keeps_combinator[where hs = "\<lambda>this i. (SettledFulfilled c' i (length ps) this,
                                   SettledRejected c' i (length ps) this)"])
         (simp add: concerns_def cc)
    show ?thesis using Iterable e keeps_trans[OF 1 keeps_Promise_resolve] keeps_trans[OF 1 2]
      by (simp add: Promise_allSettled_def case_prod_beta)
  qed
qed

lemma keeps_Promise_race: "keeps r c n qs w (fst (Promise_race w promises))"
proof (cases promises)
  case NotIterable
  then show ?thesis by (simp add: Promise_race_def keeps_refl)
next
  case (Iterable ps)
  have 2: "keeps r c n qs w (fst (construct w (\<lambda>w2 this.
             forEach_then (\<lambda>i. (EntryResolve this, EntryReject this)) w2 0 ps)))"
    by (rule keeps_combinator[where hs = "\<lambda>this i. (EntryResolve this, EntryReject this)"])
       (simp add: concerns_def)
  show ?thesis using Iterable 2 by (simp add: Promise_race_def case_prod_beta)
qed

lemma keeps_Promise_any: "keeps r c n qs w (fst (Promise_any host w promises))"
proof (cases "joined r c n qs w")
  case False
  then show ?thesis by (simp add: keeps_def)
next
  case J: True
  show ?thesis
  proof (cases promises)
    case NotIterable
    then show ?thesis by (simp add: Promise_any_def keeps_refl)
  next
    case (Iterable ps)
    show ?thesis
    proof (cases host)
      case (ConstructorThrows e)
      then show ?thesis using Iterable by (simp add: Promise_any_def keeps_refl)
    next
      case ReturnsEmptyAggregate
      obtain w1 c' where e: "new_cell w = (w1, c')" by (cases "new_cell w")
      have cc: "c' \<noteq> c" by (rule new_cell_other[OF J e])
      have 1: "keeps r c n qs w w1" using keeps_new_cell[of r c n qs w] e by simp
      have 2: "keeps r c n qs w1 (fst (construct w1 (\<lambda>w2 this.
                 forEach_then (\<lambda>i. (EntryResolve this, AnyRejected c' i (length ps) this)) w2 0 ps)))"
        by (rule keeps_combinator[where hs = "\<lambda>this i. (EntryResolve this, AnyRejected c' i (length ps) this)"])
           (simp add: concerns_def cc)
      show ?thesis using Iterable ReturnsEmptyAggregate e
          keeps_trans[OF 1 keeps_Promise_reject] keeps_trans[OF 1 2]
        by (simp add: Promise_any_def case_prod_beta)
    qed
  qed
qed

lemma outside_keeps: "outside r c w w' \<Longrightarrow> keeps r c n qs w w'"
  by (induction rule: outside.induct)
     (simp_all add: keeps_resolve keeps_reject keeps_resolution keeps_then keeps_run_microtask
        keeps_new_Promise keeps_deferred keeps_Promise_resolve keeps_Promise_reject
        keeps_Promise_all keeps_Promise_race keeps_Promise_allSettled keeps_Promise_any)

lemma outsides_keep: "(outside r c)\<^sup>*\<^sup>* w w' \<Longrightarrow> keeps r c n qs w w'"
  by (induction rule: rtranclp_induct) (auto intro: keeps_refl keeps_trans outside_keeps)

lemma outside_step: "outside r c w w' \<Longrightarrow> step w w'"
  by (induction rule: outside.induct) (auto intro: step.intros)

section \<open>The loop of \<open>all\<close>\<close>

lemma call_fun_raw:
  assumes "fulfilledCallbacks (heap w a) = []" and "rejectedCallbacks (heap w a) = []"
  shows "\<exists>X. call_fun w (Resolve a) (Reject a) calls = w\<lparr>heap := (heap w)(a := X)\<rparr> \<and>
             fulfilledCallbacks X = [] \<and> rejectedCallbacks X = []"
  using assms
proof (induction calls arbitrary: w)
  case Nil
  have "w\<lparr>heap := (heap w)(a := heap w a)\<rparr> = w" by simp
  then show ?case using Nil by (intro exI[of _ "heap w a"]) simp
next
  case (Cons s calls)
  define w1 where "w1 = (case s of CallOnFulfill y \<Rightarrow> resolve w a y | CallOnReject e \<Rightarrow> reject w a e)"
  have 1: "\<exists>X. w1 = w\<lparr>heap := (heap w)(a := X)\<rparr> \<and> fulfilledCallbacks X = [] \<and> rejectedCallbacks X = []"
  proof (cases "state (heap w a) = PEDDING")
    case False
    have "w\<lparr>heap := (heap w)(a := heap w a)\<rparr> = w" by simp
    then show ?thesis using False Cons.prems
      by (intro exI[of _ "heap w a"]) (simp add: w1_def resolve_eq reject_eq split: signal.splits)
  next
    case True
    show ?thesis
    proof (cases s)
      case (CallOnFulfill y)
      then show ?thesis using True Cons.prems
        by (intro exI[of _ "(heap w a)\<lparr>value' := y, state := FULFILLED, fulfilledCallbacks := []\<rparr>"])
          (simp add: w1_def resolve_eq)
    next
      case (CallOnReject e)
      then show ?thesis using True Cons.prems
        by (intro exI[of _ "(heap w a)\<lparr>reason := e, state := REJECTED, rejectedCallbacks := []\<rparr>"])
          (simp add: w1_def reject_eq)
    qed
  qed
  then obtain X1 where X1: "w1 = w\<lparr>heap := (heap w)(a := X1)\<rparr>"
    "fulfilledCallbacks X1 = []" "rejectedCallbacks X1 = []" by blast
  have "\<exists>X. call_fun w1 (Resolve a) (Reject a) calls = w1\<lparr>heap := (heap w1)(a := X)\<rparr> \<and>
             fulfilledCallbacks X = [] \<and> rejectedCallbacks X = []"
    by (rule Cons.IH) (simp_all add: X1)
  then obtain X where X: "call_fun w1 (Resolve a) (Reject a) calls = w1\<lparr>heap := (heap w1)(a := X)\<rparr>"
    "fulfilledCallbacks X = []" "rejectedCallbacks X = []" by blast
  have e: "call_fun w (Resolve a) (Reject a) (s # calls) = call_fun w1 (Resolve a) (Reject a) calls"
    by (cases s) (simp_all add: w1_def)
  have f: "w1\<lparr>heap := (heap w1)(a := X)\<rparr> = w\<lparr>heap := (heap w)(a := X)\<rparr>"
    by (simp add: X1)
  show ?case unfolding e X(1) f using X(2,3) by blast
qed

text \<open>
  The static \<open>resolve\<close> on a value that is not a promise and whose \<open>then\<close> can be read makes
  one new promise, without callbacks, and changes no other promise, no variable of a
  combinator and not the queue. The new promise is fulfilled with the value unless the value
  is an object with a callable \<open>then\<close>.
\<close>

lemma Promise_resolve_other:
  assumes "instance_of_Promise p = None" and "throwing p = None"
  shows "snd (Promise_resolve w p) = Inr (nextPromise w)"
    and "nextPromise (fst (Promise_resolve w p)) = Suc (nextPromise w)"
    and "microtasks (fst (Promise_resolve w p)) = microtasks w"
    and "cells (fst (Promise_resolve w p)) = cells w"
    and "\<forall>q. q \<noteq> nextPromise w \<longrightarrow> heap (fst (Promise_resolve w p)) q = heap w q"
    and "fulfilledCallbacks (heap (fst (Promise_resolve w p)) (nextPromise w)) = []"
    and "rejectedCallbacks (heap (fst (Promise_resolve w p)) (nextPromise w)) = []"
    and "(isObject p \<longrightarrow> get_then p = NotCallable) \<longrightarrow>
           state (heap (fst (Promise_resolve w p)) (nextPromise w)) = FULFILLED \<and>
           value' (heap (fst (Promise_resolve w p)) (nextPromise w)) = p"
proof -
  let ?a = "nextPromise w"
  let ?P = "\<lambda>r. snd r = Inr ?a \<and> nextPromise (fst r) = Suc ?a \<and>
     microtasks (fst r) = microtasks w \<and> cells (fst r) = cells w \<and>
     (\<forall>q. q \<noteq> ?a \<longrightarrow> heap (fst r) q = heap w q) \<and>
     fulfilledCallbacks (heap (fst r) ?a) = [] \<and> rejectedCallbacks (heap (fst r) ?a) = [] \<and>
     ((isObject p \<longrightarrow> get_then p = NotCallable) \<longrightarrow>
        state (heap (fst r) ?a) = FULFILLED \<and> value' (heap (fst r) ?a) = p)"
  have ng: "\<not> (isObject p \<and> (\<exists>e. get_then p = GetterThrows e))"
    using assms by (auto split: then_member.splits)
  consider (plain) "isObject p \<longrightarrow> get_then p = NotCallable"
    | (thenable) calls thrown where "isObject p" "get_then p = ThenFun calls thrown"
    using ng by (cases "get_then p") auto
  then have "?P (Promise_resolve w p)"
  proof cases
    case plain
    then show ?thesis using assms(1)
      by (simp add: Promise_resolve_def construct_def alloc_def resolve_eq initValue_def emit_def)
  next
    case thenable
    let ?w1 = "emit (emit ((emit w (ReadThen p))\<lparr>heap := (heap w)(?a := initValue),
                 nextPromise := Suc ?a\<rparr>) (ReadThen p)) (CallThen p)"
    obtain X where X: "call_fun ?w1 (Resolve ?a) (Reject ?a) calls = ?w1\<lparr>heap := (heap ?w1)(?a := X)\<rparr>"
      "fulfilledCallbacks X = []" "rejectedCallbacks X = []"
      using call_fun_raw[of ?w1 ?a calls] by (auto simp: emit_def initValue_def)
    have pr: "Promise_resolve w p =
      (case thrown of None \<Rightarrow> (?w1\<lparr>heap := (heap ?w1)(?a := X)\<rparr>, Inr ?a)
       | Some e \<Rightarrow> (reject (?w1\<lparr>heap := (heap ?w1)(?a := X)\<rparr>) ?a e, Inr ?a))"
      using assms(1) thenable X(1)
      by (simp add: Promise_resolve_def construct_def alloc_def emit_def split: option.splits)
    show ?thesis unfolding pr using X(2,3) thenable
      by (simp add: reject_eq emit_def split: option.splits)
  qed
  then show "snd (Promise_resolve w p) = Inr (nextPromise w)"
    and "nextPromise (fst (Promise_resolve w p)) = Suc (nextPromise w)"
    and "microtasks (fst (Promise_resolve w p)) = microtasks w"
    and "cells (fst (Promise_resolve w p)) = cells w"
    and "\<forall>q. q \<noteq> nextPromise w \<longrightarrow> heap (fst (Promise_resolve w p)) q = heap w q"
    and "fulfilledCallbacks (heap (fst (Promise_resolve w p)) (nextPromise w)) = []"
    and "rejectedCallbacks (heap (fst (Promise_resolve w p)) (nextPromise w)) = []"
    and "(isObject p \<longrightarrow> get_then p = NotCallable) \<longrightarrow>
           state (heap (fst (Promise_resolve w p)) (nextPromise w)) = FULFILLED \<and>
           value' (heap (fst (Promise_resolve w p)) (nextPromise w)) = p"
    by blast+
qed

lemma Promise_resolve_promise: "Promise_resolve w (PromiseRef q) = (w, Inr q)"
  by (simp add: Promise_resolve_def)

lemma Promise_resolve_throws:
  "throwing p = Some e \<Longrightarrow> Promise_resolve w p = (emit w (ReadThen p), Inl e)"
  by (cases "instance_of_Promise p")
     (auto simp: Promise_resolve_def split: then_member.splits if_splits)

lemma length_layout: "length (layout a ps) = length ps"
  by (induction ps arbitrary: a) (simp_all split: option.splits)

lemma layout_promise:
  "i < length ps \<Longrightarrow> instance_of_Promise (ps ! i) = Some q \<Longrightarrow> fst (layout a ps ! i) = q"
proof (induction ps arbitrary: a i)
  case Nil
  then show ?case by simp
next
  case (Cons p ps)
  show ?case
  proof (cases i)
    case 0
    then show ?thesis using Cons.prems by (simp split: option.splits)
  next
    case (Suc k)
    then have "fst (layout b ps ! k) = q" for b using Cons.IH[of k b] Cons.prems by simp
    then show ?thesis using Suc by (simp split: option.splits)
  qed
qed

text \<open>One round of the loop, on an input whose \<open>then\<close> can be read.\<close>

lemma loop_round:
  fixes w1 w2 :: world
  assumes nt: "throwing p = None"
    and q: "q = (case instance_of_Promise p of Some x \<Rightarrow> x | None \<Rightarrow> nextPromise w)"
    and w1: "w1 = fst (Promise_resolve w p)"
    and w2: "w2 = subscribe (fst (alloc w1)) q
               (OnFulfilledTask q (AllFulfilled c k n r) (nextPromise w1))
               (OnRejectedTask q (EntryReject r) (nextPromise w1))"
  shows "forEach_then (\<lambda>i. (AllFulfilled c i n r, EntryReject r)) w k (p # ps) =
           forEach_then (\<lambda>i. (AllFulfilled c i n r, EntryReject r)) w2 (Suc k) ps"
    and "layout (nextPromise w) (p # ps) = (q, nextPromise w1) # layout (nextPromise w2) ps"
    and "nextPromise w2 = Suc (nextPromise w1)"
    and "nextPromise w \<le> nextPromise w1"
    and "instance_of_Promise p = None \<Longrightarrow> q < nextPromise w1"
    and "a \<noteq> nextPromise w \<Longrightarrow> heap w1 a = heap w a"
    and "instance_of_Promise p = None \<Longrightarrow> (isObject p \<longrightarrow> get_then p = NotCallable) \<Longrightarrow>
           state (heap w1 q) = FULFILLED \<and> value' (heap w1 q) = p"
proof -
  have n2: "nextPromise w2 = Suc (nextPromise w1)"
    by (simp add: w2 subscribe_fields alloc_def)
  have t: "fst (then' w1 q (AllFulfilled c k n r) (EntryReject r)) = w2"
    by (simp add: then_subscribe w2)
  have "(forEach_then (\<lambda>i. (AllFulfilled c i n r, EntryReject r)) w k (p # ps) =
           forEach_then (\<lambda>i. (AllFulfilled c i n r, EntryReject r)) w2 (Suc k) ps) \<and>
        layout (nextPromise w) (p # ps) = (q, nextPromise w1) # layout (nextPromise w2) ps \<and>
        nextPromise w \<le> nextPromise w1 \<and>
        (instance_of_Promise p = None \<longrightarrow> q < nextPromise w1) \<and>
        (a \<noteq> nextPromise w \<longrightarrow> heap w1 a = heap w a) \<and>
        (instance_of_Promise p = None \<longrightarrow> (isObject p \<longrightarrow> get_then p = NotCallable) \<longrightarrow>
           state (heap w1 q) = FULFILLED \<and> value' (heap w1 q) = p)"
  proof (cases "instance_of_Promise p")
    case (Some x)
    then have p: "p = PromiseRef x" by (cases p) simp_all
    have e: "q = x" "w1 = w" by (simp_all add: q w1 p Promise_resolve_promise)
    show ?thesis using t n2 by (simp add: p e Promise_resolve_promise)
  next
    case None
    note o = Promise_resolve_other[OF None nt, of w, folded w1]
    have e: "q = nextPromise w" by (simp add: q None)
    have pr: "Promise_resolve w p = (w1, Inr q)"
      using o(1) by (simp add: w1 e prod_eq_iff)
    show ?thesis using t n2 o(2,5,8) by (simp add: pr None e)
  qed
  then show "forEach_then (\<lambda>i. (AllFulfilled c i n r, EntryReject r)) w k (p # ps) =
           forEach_then (\<lambda>i. (AllFulfilled c i n r, EntryReject r)) w2 (Suc k) ps"
    and "layout (nextPromise w) (p # ps) = (q, nextPromise w1) # layout (nextPromise w2) ps"
    and "nextPromise w \<le> nextPromise w1"
    and "instance_of_Promise p = None \<Longrightarrow> q < nextPromise w1"
    and "a \<noteq> nextPromise w \<Longrightarrow> heap w1 a = heap w a"
    and "instance_of_Promise p = None \<Longrightarrow> (isObject p \<longrightarrow> get_then p = NotCallable) \<Longrightarrow>
           state (heap w1 q) = FULFILLED \<and> value' (heap w1 q) = p"
    by blast+
  show "nextPromise w2 = Suc (nextPromise w1)" by (rule n2)
qed

text \<open>
  The whole loop, from any index on. It throws what the first input with a throwing \<open>then\<close>
  throws, and leaves \<open>r\<close> pending. If no input throws, it leaves one subscription for each
  input, on the promises at the addresses given by \<open>layout\<close>, and every input that was not
  a promise and has no callable \<open>then\<close> is a promise fulfilled with it.
\<close>

lemma all_loop:
  assumes J: "joined r c n qs w" and pe: "state (heap w r) = PEDDING"
    and len: "length qs + length ps = n"
    and ex: "\<forall>q. PromiseRef q \<in> set ps \<longrightarrow> q < r"
    and W: "W = fst (forEach_then (\<lambda>i. (AllFulfilled c i n r, EntryReject r)) w (length qs) ps)"
  shows "snd (forEach_then (\<lambda>i. (AllFulfilled c i n r, EntryReject r)) w (length qs) ps) = thrown_by ps
    \<and> state (heap W r) = PEDDING \<and> r < nextPromise W
    \<and> (thrown_by ps = None \<longrightarrow>
         joined r c n (qs @ map fst (layout (nextPromise w) ps)) W \<and>
         (\<forall>i < length ps. instance_of_Promise (ps ! i) = None \<and>
              (isObject (ps ! i) \<longrightarrow> get_then (ps ! i) = NotCallable) \<longrightarrow>
              fst (layout (nextPromise w) ps ! i) < nextPromise W \<and>
              state (heap W (fst (layout (nextPromise w) ps ! i))) = FULFILLED \<and>
              value' (heap W (fst (layout (nextPromise w) ps ! i))) = ps ! i))"
  using J pe len ex W
proof (induction ps arbitrary: qs w)
  case Nil
  then show ?case by (auto simp: joined_def subscribed_def bounds_ok_def)
next
  case (Cons p ps)
  let ?hs = "\<lambda>i. (AllFulfilled c i n r, EntryReject r)"
  have rb: "r < nextPromise w" using Cons.prems(1) by (auto simp: joined_def subscribed_def bounds_ok_def)
  show ?case
  proof (cases "throwing p")
    case (Some e)
    have "forEach_then ?hs w (length qs) (p # ps) = (emit w (ReadThen p), Some e)"
      by (simp add: Promise_resolve_throws[OF Some])
    then show ?thesis using Some Cons.prems(2,5) rb by (simp add: emit_def)
  next
    case None
    define q where "q = (case instance_of_Promise p of Some x \<Rightarrow> x | None \<Rightarrow> nextPromise w)"
    define w1 where "w1 = fst (Promise_resolve w p)"
    define w2 where "w2 = subscribe (fst (alloc w1)) q
               (OnFulfilledTask q (AllFulfilled c (length qs) n r) (nextPromise w1))
               (OnRejectedTask q (EntryReject r) (nextPromise w1))"
    note R = loop_round[OF None q_def w1_def w2_def]
    have J1: "joined r c n qs w1"
      using keeps_Promise_resolve[of r c n qs w p] Cons.prems(1) by (simp add: keeps_def w1_def)
    have J1': "joined r c n qs (fst (alloc w1))"
      using keeps_alloc[of r c n qs w1] J1 by (simp add: keeps_def)
    have r1: "r < nextPromise w1" using rb R(4) by simp
    have qr: "q \<noteq> r \<and> q < nextPromise w1"
    proof (cases "instance_of_Promise p")
      case (Some x)
      then have "p = PromiseRef x" by (cases p) simp_all
      then have "x < r" using Cons.prems(4) by simp
      then show ?thesis using r1 by (simp add: q_def Some)
    next
      case None
      then show ?thesis using R(5) rb by (simp add: q_def)
    qed
    have J2: "joined r c n (qs @ [q]) w2"
      unfolding w2_def
      by (rule joined_extend[OF J1']) (use Cons.prems(3) qr r1 in \<open>simp_all add: alloc_def\<close>)
    have h1: "heap w1 r = heap w r" by (rule R(6)) (use rb in simp)
    have pe2: "state (heap w2 r) = PEDDING"
      using Cons.prems(2) h1 r1 by (simp add: w2_def subscribe_fields alloc_def)
    have W2: "W = fst (forEach_then ?hs w2 (length (qs @ [q])) ps)"
      using Cons.prems(5) R(1)[of ps] by simp
    have len2: "length (qs @ [q]) + length ps = n" using Cons.prems(3) by simp
    have ex2: "\<forall>q. PromiseRef q \<in> set ps \<longrightarrow> q < r" using Cons.prems(4) by simp
    note IH = Cons.IH[OF J2 pe2 len2 ex2 W2]
    have s1: "snd (forEach_then ?hs w (length qs) (p # ps)) = thrown_by (p # ps)"
      using IH R(1)[of ps] None by simp
    have e12: "extends w1 w2"
      using extends_then[of w1 q "AllFulfilled c (length qs) n r" "EntryReject r"]
      by (simp add: then_subscribe w2_def)
    have e2W: "extends w2 W" unfolding W2 by (rule extends_forEach_then)
    have e1W: "extends w1 W" by (rule extends_trans[OF e12 e2W])
    have lay: "layout (nextPromise w) (p # ps) = (q, nextPromise w1) # layout (nextPromise w2) ps"
      by (rule R(2)[of ps])
    have prim: "fst (layout (nextPromise w) (p # ps) ! i) < nextPromise W \<and>
              state (heap W (fst (layout (nextPromise w) (p # ps) ! i))) = FULFILLED \<and>
              value' (heap W (fst (layout (nextPromise w) (p # ps) ! i))) = (p # ps) ! i"
      if tn: "thrown_by (p # ps) = None" and i: "i < length (p # ps)"
        and ip: "instance_of_Promise ((p # ps) ! i) = None"
        and io: "isObject ((p # ps) ! i) \<longrightarrow> get_then ((p # ps) ! i) = NotCallable" for i
    proof (cases i)
      case 0
      have a: "instance_of_Promise p = None" "isObject p \<longrightarrow> get_then p = NotCallable"
        using ip io 0 by simp_all
      have f: "state (heap w1 q) = FULFILLED \<and> value' (heap w1 q) = p" by (rule R(7)[OF a])
      have lt: "q < nextPromise w1" using qr by simp
      have "heap W q = heap w1 q" using e1W lt f by (simp add: extends_def)
      moreover have "q < nextPromise W" using e1W lt by (simp add: extends_def)
      ultimately show ?thesis unfolding lay using f 0 by simp
    next
      case (Suc j)
      have "thrown_by ps = None" using tn None by simp
      then show ?thesis unfolding lay using IH i ip io Suc by simp
    qed
    have jn: "joined r c n (qs @ map fst (layout (nextPromise w) (p # ps))) W"
      if "thrown_by (p # ps) = None"
    proof -
      have "thrown_by ps = None" using that None by simp
      then show ?thesis unfolding lay using IH by simp
    qed
    show ?thesis using s1 IH prim jn by blast
  qed
qed

section \<open>The call of \<open>all\<close>\<close>

lemma closed_not_relevant:
  "closed_task w t \<Longrightarrow> \<not> relevant (nextPromise w) (nextCell w) t"
  by (auto simp: closed_task_def relevant_def concerns_def)

text \<open>
  In a well-formed store nothing refers to the promise and to the cell that a call makes,
  so right after they are made there is no subscription of the call.
\<close>

lemma subscribed_start:
  assumes wf: "wellformed w"
    and hw: "heap w' = (heap w)(nextPromise w := X)"
    and X: "fulfilledCallbacks X = []" "rejectedCallbacks X = []"
    and mt: "microtasks w' = microtasks w"
    and ce: "cells w' (nextCell w) = \<lparr>total = 0, results = []\<rparr>"
    and np: "nextPromise w' = Suc (nextPromise w)" and nc: "nextCell w' = Suc (nextCell w)"
  shows "subscribed (nextPromise w) (nextCell w) n [] w'"
proof -
  let ?r = "nextPromise w" and ?c = "nextCell w"
  have q: "\<not> relevant ?r ?c t" if "t \<in> set (microtasks w)" for t
    using wf that closed_not_relevant unfolding wellformed_def by blast
  have cb: "\<not> relevant ?r ?c (thunk_task th)"
    if "th \<in> set (fulfilledCallbacks (heap w' p)) \<union> set (rejectedCallbacks (heap w' p))" for th p
  proof (cases "p = ?r")
    case True
    then show ?thesis using that X by (simp add: hw)
  next
    case False
    then have "th \<in> set (fulfilledCallbacks (heap w p)) \<union> set (rejectedCallbacks (heap w p))"
      using that by (simp add: hw)
    then show ?thesis using wf closed_not_relevant unfolding wellformed_def by blast
  qed
  have 1: "bounds_ok ?r ?c n [] w'" by (simp add: bounds_ok_def np nc)
  have 2: "cell_ok ?c [] w'" by (simp add: cell_ok_def ce stored_count_def)
  have 3: "queue_ok ?r ?c n [] w'" using q by (simp add: queue_ok_def mt)
  have 4: "waiting_ok ?r ?c n [] w'" using cb by (simp add: waiting_ok_def) blast
  show ?thesis using 1 2 3 4 by (simp add: subscribed_def)
qed

text \<open>The call on a collection that is not empty, in terms of its loop.\<close>

lemma Promise_all_loop:
  assumes ne: "ps \<noteq> []"
    and L: "forEach_then (\<lambda>i. (AllFulfilled (nextCell w) i (length ps) (nextPromise w),
                                 EntryReject (nextPromise w)))
              (fst (alloc (fst (new_cell w)))) 0 ps = (wL, res)"
  shows "Promise_all w (Iterable ps) =
           (case res of None \<Rightarrow> wL | Some e \<Rightarrow> reject wL (nextPromise w) e, Inr (nextPromise w))"
proof -
  have a: "alloc (fst (new_cell w)) = (fst (alloc (fst (new_cell w))), nextPromise w)"
    by (simp add: alloc_def new_cell_def)
  have n: "new_cell w = (fst (new_cell w), nextCell w)" by (simp add: new_cell_def)
  have "construct (fst (new_cell w)) (\<lambda>w2 this.
           forEach_then (\<lambda>i. (AllFulfilled (nextCell w) i (length ps) this, EntryReject this)) w2 0 ps) =
        (case res of None \<Rightarrow> wL | Some e \<Rightarrow> reject wL (nextPromise w) e, nextPromise w)"
    unfolding construct_def by (subst a) (simp add: L split: option.splits)
  then show ?thesis unfolding Promise_all_def by (subst n) (simp add: ne)
qed

text \<open>
  What the call returns and the store it leaves: the new promise \<open>r\<close>; rejected with what
  the first input with a throwing \<open>then\<close> throws, if there is one; otherwise with one
  subscription on each of the promises that stand for the inputs.
\<close>

lemma all_start:
  assumes wf: "wellformed w" and ex: "\<forall>q. PromiseRef q \<in> set ps \<longrightarrow> q < nextPromise w"
    and r: "r = nextPromise w" and c: "c = nextCell w" and qs: "qs = normalised w ps"
    and W0: "W0 = fst (Promise_all w (Iterable ps))"
  shows "snd (Promise_all w (Iterable ps)) = Inr r"
    and "r < nextPromise W0"
    and "thrown_by ps = Some e \<Longrightarrow> state (heap W0 r) = REJECTED \<and> reason (heap W0 r) = e"
    and "thrown_by ps = None \<Longrightarrow> joined r c (length ps) qs W0"
    and "thrown_by ps = None \<Longrightarrow> i < length ps \<Longrightarrow> instance_of_Promise (ps ! i) = None \<Longrightarrow>
           (isObject (ps ! i) \<longrightarrow> get_then (ps ! i) = NotCallable) \<Longrightarrow>
           qs ! i < nextPromise W0 \<and> state (heap W0 (qs ! i)) = FULFILLED \<and>
           value' (heap W0 (qs ! i)) = ps ! i"
proof -
  have "snd (Promise_all w (Iterable ps)) = Inr r \<and> r < nextPromise W0 \<and>
    (thrown_by ps = Some e \<longrightarrow> state (heap W0 r) = REJECTED \<and> reason (heap W0 r) = e) \<and>
    (thrown_by ps = None \<longrightarrow> joined r c (length ps) qs W0 \<and>
       (\<forall>i < length ps. instance_of_Promise (ps ! i) = None \<and>
           (isObject (ps ! i) \<longrightarrow> get_then (ps ! i) = NotCallable) \<longrightarrow>
           qs ! i < nextPromise W0 \<and> state (heap W0 (qs ! i)) = FULFILLED \<and>
           value' (heap W0 (qs ! i)) = ps ! i))"
  proof (cases "ps = []")
    case True
    let ?X = "initValue\<lparr>value' := ArrayRef c, state := FULFILLED, fulfilledCallbacks := []\<rparr>"
    have e: "W0 = resolve (fst (alloc (emit (fst (new_cell w)) (ReadThen (ArrayRef c))))) r (ArrayRef c)"
      by (simp add: W0 True Promise_all_empty r c)
    have f: "heap W0 = (heap w)(r := ?X)" "microtasks W0 = microtasks w"
      "cells W0 c = \<lparr>total = 0, results = []\<rparr>" "nextPromise W0 = Suc r" "nextCell W0 = Suc c"
      by (simp_all add: e resolve_eq alloc_def emit_def new_cell_def initValue_def r c)
    have S: "subscribed r c 0 [] W0"
      unfolding r c
      by (rule subscribed_start[OF wf, where X = ?X]) (simp_all add: f[unfolded r c] c initValue_def)
    have R: "result_ok r c 0 [] W0" by (simp add: result_ok_def f stored_count_def)
    show ?thesis using S R
      by (simp add: True Promise_all_empty r c f[unfolded r c] joined_def qs normalised_def)
  next
    case ne: False
    let ?hs = "\<lambda>i. (AllFulfilled c i (length ps) r, EntryReject r)"
    define wA where "wA = fst (alloc (fst (new_cell w)))"
    obtain wL res where L: "forEach_then ?hs wA 0 ps = (wL, res)" by (cases "forEach_then ?hs wA 0 ps")
    have P: "Promise_all w (Iterable ps) =
               (case res of None \<Rightarrow> wL | Some e \<Rightarrow> reject wL r e, Inr r)"
      unfolding r by (rule Promise_all_loop[OF ne]) (use L in \<open>simp add: r c wA_def\<close>)
    have fA: "heap wA = (heap w)(r := initValue)" "microtasks wA = microtasks w"
      "cells wA c = \<lparr>total = 0, results = []\<rparr>" "nextPromise wA = Suc r" "nextCell wA = Suc c"
      by (simp_all add: wA_def alloc_def new_cell_def r c)
    have S: "subscribed r c (length ps) [] wA"
      unfolding r c
      by (rule subscribed_start[OF wf, where X = initValue])
         (simp_all add: fA[unfolded r c] initValue_def)
    have R: "result_ok r c (length ps) [] wA"
      using ne by (simp add: result_ok_def fA stored_count_def initValue_def)
    have J: "joined r c (length ps) [] wA" using S R by (simp add: joined_def)
    have pe: "state (heap wA r) = PEDDING" by (simp add: fA initValue_def)
    have ex': "\<forall>q. PromiseRef q \<in> set ps \<longrightarrow> q < r" using ex by (simp add: r)
    have wL: "wL = fst (forEach_then ?hs wA (length ([]::nat list)) ps)" using L by simp
    note A = all_loop[OF J pe _ ex' wL, simplified, unfolded L fA(4), simplified]
    have t: "res = thrown_by ps" using A by simp
    have q: "qs = map fst (layout (Suc r) ps)" by (simp add: qs normalised_def r)
    have l: "length (layout (Suc r) ps) = length ps" by (rule length_layout)
    show ?thesis
    proof (cases res)
      case None
      then have "W0 = wL" by (simp add: W0 P)
      then show ?thesis using A None t l by (simp add: P q)
    next
      case (Some e')
      then have w: "W0 = reject wL r e'" by (simp add: W0 P)
      have tb: "thrown_by ps = Some e'" using t Some by simp
      have a: "state (heap wL r) = PEDDING" "r < nextPromise wL" using A by simp_all
      show ?thesis using a by (simp add: P tb w reject_eq)
    qed
  qed
  then show "snd (Promise_all w (Iterable ps)) = Inr r"
    and "r < nextPromise W0"
    and "thrown_by ps = Some e \<Longrightarrow> state (heap W0 r) = REJECTED \<and> reason (heap W0 r) = e"
    and "thrown_by ps = None \<Longrightarrow> joined r c (length ps) qs W0"
    and "thrown_by ps = None \<Longrightarrow> i < length ps \<Longrightarrow> instance_of_Promise (ps ! i) = None \<Longrightarrow>
           (isObject (ps ! i) \<longrightarrow> get_then (ps ! i) = NotCallable) \<Longrightarrow>
           qs ! i < nextPromise W0 \<and> state (heap W0 (qs ! i)) = FULFILLED \<and>
           value' (heap W0 (qs ! i)) = ps ! i"
    by blast+
qed

section \<open>The outcome of \<open>all\<close>\<close>

lemma stored_count_all:
  assumes "\<forall>i < length xs. lookup xs i \<noteq> None"
  shows "stored_count xs = length xs"
proof -
  have "\<forall>x \<in> set xs. x \<noteq> None"
    using assms by (auto simp: in_set_conv_nth lookup_def)
  then show ?thesis by (simp add: stored_count_def)
qed

lemma results_full:
  assumes C: "cell_ok c qs W" and f: "stored_count (results (cells W c)) = length qs"
  shows "(\<forall>i < length qs. state (heap W (qs ! i)) = FULFILLED)"
    and "results (cells W c) = map (\<lambda>i. Some (value' (heap W (qs ! i)))) [0..<length qs]"
proof -
  let ?res = "results (cells W c)"
  have l: "length ?res = length qs"
    using C f stored_count_le[of ?res] unfolding cell_ok_def by simp
  have v: "state (heap W (qs ! i)) = FULFILLED \<and> ?res ! i = Some (value' (heap W (qs ! i)))"
    if i: "i < length qs" for i
  proof -
    have "lookup ?res i \<noteq> None" by (rule stored_count_full) (use f l i in simp_all)
    then obtain x where x: "lookup ?res i = Some x" by blast
    then have "state (heap W (qs ! i)) = FULFILLED \<and> x = value' (heap W (qs ! i))"
      using C i unfolding cell_ok_def by blast
    then show ?thesis using x i l by (simp add: lookup_def)
  qed
  show "\<forall>i < length qs. state (heap W (qs ! i)) = FULFILLED" using v by blast
  show "?res = map (\<lambda>i. Some (value' (heap W (qs ! i)))) [0..<length qs]"
    by (rule nth_equalityI) (use l v in simp_all)
qed

text \<open>
  What the subscriptions of a call on \<open>length qs\<close> inputs say about its result, in any store
  that they hold in.
\<close>

lemma joined_outcome:
  assumes J: "joined r c (length qs) qs W"
  shows "(\<forall>i < length qs. state (heap W (qs ! i)) = FULFILLED) \<Longrightarrow> microtasks W = [] \<Longrightarrow>
           state (heap W r) = FULFILLED"
    and "state (heap W r) = FULFILLED \<Longrightarrow>
           (\<forall>i < length qs. state (heap W (qs ! i)) = FULFILLED) \<and> value' (heap W r) = ArrayRef c \<and>
           results (cells W c) = map (\<lambda>i. Some (value' (heap W (qs ! i)))) [0..<length qs]"
    and "state (heap W r) = REJECTED \<Longrightarrow>
           \<exists>i < length qs. state (heap W (qs ! i)) = REJECTED \<and>
                            reason (heap W r) = reason (heap W (qs ! i))"
    and "i < length qs \<Longrightarrow> state (heap W (qs ! i)) = REJECTED \<Longrightarrow> microtasks W = [] \<Longrightarrow>
           state (heap W r) = REJECTED"
proof -
  let ?res = "results (cells W c)" and ?n = "length qs"
  note P = joined_parts[OF J]
  have lr: "length ?res \<le> ?n" using P(2) unfolding cell_ok_def by blast
  have Rp: "state (heap W r) = PEDDING \<Longrightarrow> stored_count ?res < ?n"
    and Rq: "state (heap W r) = PEDDING \<Longrightarrow> \<exists>j < ?n. state (heap W (qs ! j)) = REJECTED \<Longrightarrow>
               \<exists>t \<in> set (microtasks W). task_handler t = EntryReject r"
    and Rf: "state (heap W r) = FULFILLED \<Longrightarrow> stored_count ?res = ?n \<and> value' (heap W r) = ArrayRef c"
    and Rr: "state (heap W r) = REJECTED \<Longrightarrow>
           \<exists>i < ?n. state (heap W (qs ! i)) = REJECTED \<and> reason (heap W r) = reason (heap W (qs ! i))"
    using P(5) unfolding result_ok_def by blast+
  show "state (heap W r) = FULFILLED"
    if a: "\<forall>i < ?n. state (heap W (qs ! i)) = FULFILLED" and e: "microtasks W = []"
  proof -
    have nn: "lookup ?res i \<noteq> None" if "i < ?n" for i
    proof
      assume "lookup ?res i = None"
      then have "length (filter (\<lambda>t. task_handler t = AllFulfilled c i ?n r) (microtasks W)) = 1"
        using P(3) a that unfolding queue_ok_def by blast
      then show False by (simp add: e)
    qed
    have "length ?res = ?n"
    proof (cases "?n")
      case 0
      then show ?thesis using lr by simp
    next
      case (Suc k)
      then have "lookup ?res k \<noteq> None" using nn[of k] by simp
      then have "k < length ?res" by (simp add: lookup_def split: if_splits)
      then show ?thesis using lr Suc by simp
    qed
    then have "stored_count ?res = ?n" using stored_count_all[of ?res] nn by simp
    then have "state (heap W r) \<noteq> PEDDING" using Rp by auto
    moreover have "state (heap W r) \<noteq> REJECTED" using Rr a by auto
    ultimately show ?thesis by (cases "state (heap W r)") simp_all
  qed
  show "(\<forall>i < ?n. state (heap W (qs ! i)) = FULFILLED) \<and> value' (heap W r) = ArrayRef c \<and>
           ?res = map (\<lambda>i. Some (value' (heap W (qs ! i)))) [0..<?n]"
    if "state (heap W r) = FULFILLED"
    using Rf[OF that] results_full[OF P(2)] by blast
  show "\<exists>i < ?n. state (heap W (qs ! i)) = REJECTED \<and> reason (heap W r) = reason (heap W (qs ! i))"
    if "state (heap W r) = REJECTED"
    by (rule Rr[OF that])
  show "state (heap W r) = REJECTED"
    if i: "i < ?n" and a: "state (heap W (qs ! i)) = REJECTED" and e: "microtasks W = []"
  proof -
    have "state (heap W r) \<noteq> PEDDING" using Rq i a e by auto
    moreover have "state (heap W r) \<noteq> FULFILLED"
    proof
      assume "state (heap W r) = FULFILLED"
      then have "state (heap W (qs ! i)) = FULFILLED"
        using Rf results_full(1)[OF P(2)] i by blast
      then show False using a by simp
    qed
    ultimately show ?thesis by (cases "state (heap W r)") simp_all
  qed
qed

text \<open>
  The first microtask of a rejection that runs while the result is pending rejects it, with
  the reason of the input it was queued for.
\<close>

lemma joined_first_rejection:
  assumes J: "joined r c n qs W1" and pe: "state (heap W1 r) = PEDDING"
    and mt: "microtasks W1 = OnRejectedTask q (EntryReject r) d # ts"
  shows "q \<in> set qs" and "state (heap W1 q) = REJECTED"
    and "state (heap (run_microtask W1) r) = REJECTED"
    and "reason (heap (run_microtask W1) r) = reason (heap W1 q)"
proof -
  have rel: "relevant r c (OnRejectedTask q (EntryReject r) d)"
    by (simp add: relevant_def concerns_def)
  obtain i d' where i: "i < length qs" "d' \<noteq> r"
    "OnRejectedTask q (EntryReject r) d = OnRejectedTask (qs ! i) (EntryReject r) d'"
    "state (heap W1 (qs ! i)) = REJECTED"
    using queued_subscription[OF J mt rel] by auto
  have q: "q = qs ! i" "d \<noteq> r" using i(2,3) by simp_all
  show "q \<in> set qs" using i(1) q(1) by simp
  show "state (heap W1 q) = REJECTED" using i(4) q(1) by simp
  have run: "run_microtask W1 =
      resolve (reject (W1\<lparr>microtasks := ts\<rparr>) r (reason (heap W1 q))) d JUndefined"
    by (simp add: run_microtask_def mt resolvePromise_primitive undefined_primitive)
  show "state (heap (run_microtask W1) r) = REJECTED"
    and "reason (heap (run_microtask W1) r) = reason (heap W1 q)"
    unfolding run using pe q(2) by (simp_all add: resolve_eq reject_eq)
qed

lemma outsides_extend: "(outside r c)\<^sup>*\<^sup>* w w' \<Longrightarrow> extends w w'"
  by (induction rule: rtranclp_induct)
     (auto intro: extends_refl extends_trans step_extends outside_step)

section \<open>The example stores, in closed form\<close>

lemmas run_simps = Promise_resolve_def Promise_reject_def deferred_eq construct_def alloc_def
  Promise_all_def Promise_any_def new_cell_def Promise_resolve_promise then_eq Let_def resolve_eq
  reject_eq empty_world_def initValue_def run_microtask_def store_and_count_eq array_set_def
  resolvePromise_primitive undefined_primitive normalised_def isObject_def emit_def
  eval_nat_numeral

lemma spec_inputs_eq:
  "spec_inputs = empty_world\<lparr>heap := (heap empty_world)
       (0 := initValue\<lparr>value' := JNum 1, state := FULFILLED\<rparr>,
        1 := initValue\<lparr>reason := JStr ''e'', state := REJECTED\<rparr>,
        2 := initValue),
     nextPromise := 3\<rparr>"
  by (simp add: spec_inputs_def run_simps)

lemma busy_inputs_eq:
  "busy_inputs = empty_world\<lparr>heap := (heap empty_world)
       (1 := initValue,
        2 := initValue\<lparr>value' := JNum 7, state := FULFILLED\<rparr>,
        3 := initValue,
        4 := initValue,
        0 := initValue\<lparr>fulfilledCallbacks := [QueueMicrotask (OnFulfilledTask 0 PassValue 4)],
               rejectedCallbacks := [QueueMicrotask (OnRejectedTask 0 ThrowReason 4)]\<rparr>),
     nextPromise := 5,
     microtasks := [OnFulfilledTask 2 PassValue 3]\<rparr>"
  by (simp add: busy_inputs_def two_pending_def run_simps)

lemma spec_call_eq:
  "spec_call = empty_world\<lparr>heap := (heap empty_world)
       (0 := initValue\<lparr>value' := JNum 1, state := FULFILLED\<rparr>,
        1 := initValue\<lparr>reason := JStr ''e'', state := REJECTED\<rparr>,
        3 := initValue, 4 := initValue, 5 := initValue, 6 := initValue,
        2 := initValue\<lparr>fulfilledCallbacks := [QueueMicrotask (OnFulfilledTask 2 (AllFulfilled 0 2 3 3) 6)],
               rejectedCallbacks := [QueueMicrotask (OnRejectedTask 2 (EntryReject 3) 6)]\<rparr>),
     nextPromise := 7,
     cells := (cells empty_world)(0 := \<lparr>total = 0, results = []\<rparr>),
     nextCell := 1,
     microtasks := [OnFulfilledTask 0 (AllFulfilled 0 0 3 3) 4, OnRejectedTask 1 (EntryReject 3) 5]\<rparr>"
  unfolding spec_call_def spec_inputs_eq by (simp add: run_simps)

lemma busy_call_eq:
  "busy_call = empty_world\<lparr>heap := (heap empty_world)
       (2 := initValue\<lparr>value' := JNum 7, state := FULFILLED\<rparr>,
        3 := initValue, 4 := initValue, 5 := initValue, 6 := initValue, 7 := initValue,
        1 := initValue\<lparr>fulfilledCallbacks := [QueueMicrotask (OnFulfilledTask 1 (AllFulfilled 0 1 3 5) 7)],
               rejectedCallbacks := [QueueMicrotask (OnRejectedTask 1 (EntryReject 5) 7)]\<rparr>,
        8 := initValue,
        0 := initValue\<lparr>fulfilledCallbacks :=
                 [QueueMicrotask (OnFulfilledTask 0 PassValue 4),
                  QueueMicrotask (OnFulfilledTask 0 (AllFulfilled 0 0 3 5) 6),
                  QueueMicrotask (OnFulfilledTask 0 (AllFulfilled 0 2 3 5) 8)],
               rejectedCallbacks :=
                 [QueueMicrotask (OnRejectedTask 0 ThrowReason 4),
                  QueueMicrotask (OnRejectedTask 0 (EntryReject 5) 6),
                  QueueMicrotask (OnRejectedTask 0 (EntryReject 5) 8)]\<rparr>),
     nextPromise := 9,
     cells := (cells empty_world)(0 := \<lparr>total = 0, results = []\<rparr>),
     nextCell := 1,
     microtasks := [OnFulfilledTask 2 PassValue 3]\<rparr>"
  unfolding busy_call_def busy_inputs_eq by (simp add: run_simps)

lemma spec_done_eq:
  "run_microtask (run_microtask spec_call) = empty_world\<lparr>heap := (heap empty_world)
       (0 := initValue\<lparr>value' := JNum 1, state := FULFILLED\<rparr>,
        1 := initValue\<lparr>reason := JStr ''e'', state := REJECTED\<rparr>,
        6 := initValue,
        2 := initValue\<lparr>fulfilledCallbacks := [QueueMicrotask (OnFulfilledTask 2 (AllFulfilled 0 2 3 3) 6)],
               rejectedCallbacks := [QueueMicrotask (OnRejectedTask 2 (EntryReject 3) 6)]\<rparr>,
        4 := initValue\<lparr>value' := JUndefined, state := FULFILLED\<rparr>,
        3 := initValue\<lparr>reason := JStr ''e'', state := REJECTED\<rparr>,
        5 := initValue\<lparr>value' := JUndefined, state := FULFILLED\<rparr>),
     nextPromise := 7,
     cells := (cells empty_world)(0 := \<lparr>total = 1, results = [Some (JNum 1)]\<rparr>),
     nextCell := 1\<rparr>"
  unfolding spec_call_eq by (simp add: run_simps)

lemma busy_half_eq:
  "busy_half = empty_world\<lparr>heap := (heap empty_world)
       (2 := initValue\<lparr>value' := JNum 7, state := FULFILLED\<rparr>,
        4 := initValue, 5 := initValue, 6 := initValue, 8 := initValue,
        0 := initValue\<lparr>fulfilledCallbacks :=
                 [QueueMicrotask (OnFulfilledTask 0 PassValue 4),
                  QueueMicrotask (OnFulfilledTask 0 (AllFulfilled 0 0 3 5) 6),
                  QueueMicrotask (OnFulfilledTask 0 (AllFulfilled 0 2 3 5) 8)],
               rejectedCallbacks :=
                 [QueueMicrotask (OnRejectedTask 0 ThrowReason 4),
                  QueueMicrotask (OnRejectedTask 0 (EntryReject 5) 6),
                  QueueMicrotask (OnRejectedTask 0 (EntryReject 5) 8)]\<rparr>,
        1 := initValue\<lparr>value' := JStr ''c'', state := FULFILLED,
               rejectedCallbacks := [QueueMicrotask (OnRejectedTask 1 (EntryReject 5) 7)]\<rparr>,
        3 := initValue\<lparr>value' := JNum 7, state := FULFILLED\<rparr>,
        7 := initValue\<lparr>value' := JUndefined, state := FULFILLED\<rparr>),
     nextPromise := 9,
     cells := (cells empty_world)(0 := \<lparr>total = 1, results = [None, Some (JStr ''c'')]\<rparr>),
     nextCell := 1\<rparr>"
  unfolding busy_half_def busy_call_eq by (simp add: run_simps)

lemma busy_done_eq:
  "busy_done = empty_world\<lparr>heap := (heap empty_world)
       (2 := initValue\<lparr>value' := JNum 7, state := FULFILLED\<rparr>,
        1 := initValue\<lparr>value' := JStr ''c'', state := FULFILLED,
               rejectedCallbacks := [QueueMicrotask (OnRejectedTask 1 (EntryReject 5) 7)]\<rparr>,
        3 := initValue\<lparr>value' := JNum 7, state := FULFILLED\<rparr>,
        7 := initValue\<lparr>value' := JUndefined, state := FULFILLED\<rparr>,
        0 := initValue\<lparr>value' := JStr ''a'', state := FULFILLED,
               rejectedCallbacks :=
                 [QueueMicrotask (OnRejectedTask 0 ThrowReason 4),
                  QueueMicrotask (OnRejectedTask 0 (EntryReject 5) 6),
                  QueueMicrotask (OnRejectedTask 0 (EntryReject 5) 8)]\<rparr>,
        4 := initValue\<lparr>value' := JStr ''a'', state := FULFILLED\<rparr>,
        6 := initValue\<lparr>value' := JUndefined, state := FULFILLED\<rparr>,
        5 := initValue\<lparr>value' := ArrayRef 0, state := FULFILLED\<rparr>,
        8 := initValue\<lparr>value' := JUndefined, state := FULFILLED\<rparr>),
     nextPromise := 9,
     cells := (cells empty_world)
       (0 := \<lparr>total = 3, results = [Some (JStr ''a''), Some (JStr ''c''), Some (JStr ''a'')]\<rparr>),
     nextCell := 1\<rparr>"
  unfolding busy_done_def busy_half_eq by (simp add: run_simps)

section \<open>join-all\<close>

text \<open>
  C7. \<open>all\<close> on any collection, in any well-formed store in which the promises of the
  collection exist, followed by any steps of a program that uses the library: the inputs
  may be promises in any state, the same promise more than once, promises that already have
  callbacks, primitives, objects with or without a \<open>then\<close>; the queue may hold microtasks
  when \<open>all\<close> is called; and afterwards the program may settle the inputs and any other
  promise, subscribe to any promise, call the library in any way and let the scheduler
  run, in any order. It only does not call the entry points of the result itself and does
  not pass the closures that \<open>all\<close> made to \<open>then\<close>.

  The call returns a new promise \<open>r\<close>. If reading \<open>then\<close> on an input throws, \<open>r\<close> is rejected
  with what was thrown. Otherwise every input has a promise that stands for it: an input
  that is a promise stands for itself, and a primitive or an object without a callable
  \<open>then\<close> is a promise fulfilled with it. Once all these promises are fulfilled and the
  queue is empty, \<open>r\<close> is fulfilled; and whenever \<open>r\<close> is fulfilled, all of them are, its
  value is the array, and the array holds at each index the value of the promise at that
  index, whatever the order of the settlements was. Whenever \<open>r\<close> is rejected, its reason is
  that of a rejected input; once some input is rejected and the queue is empty, \<open>r\<close> is
  rejected, whatever the state of the other inputs; and the first microtask of a rejection
  that runs while \<open>r\<close> is pending belongs to a rejected input and decides the reason.
\<close>

theorem all_position_matched:
  assumes wf: "wellformed w" and ex: "\<forall>q. PromiseRef q \<in> set ps \<longrightarrow> q < nextPromise w"
    and r: "r = nextPromise w" and c: "c = nextCell w" and qs: "qs = normalised w ps"
    and W0: "W0 = fst (Promise_all w (Iterable ps))" and W: "(outside r c)\<^sup>*\<^sup>* W0 W"
  shows "snd (Promise_all w (Iterable ps)) = Inr r \<and>
    (\<forall>e. thrown_by ps = Some e \<longrightarrow> state (heap W r) = REJECTED \<and> reason (heap W r) = e) \<and>
    (thrown_by ps = None \<longrightarrow>
      (\<forall>i < length ps. \<forall>q. ps ! i = PromiseRef q \<longrightarrow> qs ! i = q) \<and>
      (\<forall>i < length ps. instance_of_Promise (ps ! i) = None \<and>
          (isObject (ps ! i) \<longrightarrow> get_then (ps ! i) = NotCallable) \<longrightarrow>
          state (heap W (qs ! i)) = FULFILLED \<and> value' (heap W (qs ! i)) = ps ! i) \<and>
      ((\<forall>i < length ps. state (heap W (qs ! i)) = FULFILLED) \<and> microtasks W = [] \<longrightarrow>
          state (heap W r) = FULFILLED) \<and>
      (state (heap W r) = FULFILLED \<longrightarrow>
          (\<forall>i < length ps. state (heap W (qs ! i)) = FULFILLED) \<and> value' (heap W r) = ArrayRef c \<and>
          results (cells W c) = map (\<lambda>i. Some (value' (heap W (qs ! i)))) [0..<length ps]) \<and>
      (state (heap W r) = REJECTED \<longrightarrow>
          (\<exists>i < length ps. state (heap W (qs ! i)) = REJECTED \<and>
                            reason (heap W r) = reason (heap W (qs ! i)))) \<and>
      (\<forall>i < length ps. state (heap W (qs ! i)) = REJECTED \<and> microtasks W = [] \<longrightarrow>
          state (heap W r) = REJECTED) \<and>
      (\<forall>W1 q d ts.
          (outside r c)\<^sup>*\<^sup>* W0 W1 \<and> state (heap W1 r) = PEDDING \<and>
          microtasks W1 = OnRejectedTask q (EntryReject r) d # ts \<and>
          (outside r c)\<^sup>*\<^sup>* (run_microtask W1) W \<longrightarrow>
          q \<in> set qs \<and> state (heap W1 q) = REJECTED \<and>
          state (heap W r) = REJECTED \<and> reason (heap W r) = reason (heap W1 q)))"
  (is "?A \<and> ?B \<and> (_ \<longrightarrow> ?I1 \<and> ?I2 \<and> ?I3 \<and> ?I4 \<and> ?I5 \<and> ?I6 \<and> ?I7)")
proof -
  note S = all_start[OF wf ex r c qs W0]
  have eW: "extends W0 W" by (rule outsides_extend[OF W])
  have B: ?B
  proof (intro allI impI)
    fix e assume t: "thrown_by ps = Some e"
    have "heap W r = heap W0 r" using eW S(2) S(3)[OF t] by (simp add: extends_def)
    then show "state (heap W r) = REJECTED \<and> reason (heap W r) = e" using S(3)[OF t] by simp
  qed
  have I: "?I1 \<and> ?I2 \<and> ?I3 \<and> ?I4 \<and> ?I5 \<and> ?I6 \<and> ?I7" if nt: "thrown_by ps = None"
  proof (intro conjI)
    have n: "length qs = length ps" by (simp add: qs normalised_def length_layout)
    have J0: "joined r c (length qs) qs W0" using S(4)[OF nt] n by simp
    have J: "joined r c (length qs) qs W"
      using outsides_keep[OF W, of "length qs" qs] J0 by (simp add: keeps_def)
    note o = joined_outcome[OF J, unfolded n]
    show ?I1
    proof (intro allI impI)
      fix i q assume "i < length ps" "ps ! i = PromiseRef q"
      then show "qs ! i = q" by (simp add: qs normalised_def length_layout layout_promise)
    qed
    show ?I2
    proof (intro allI impI)
      fix i assume i: "i < length ps" and p: "instance_of_Promise (ps ! i) = None \<and>
          (isObject (ps ! i) \<longrightarrow> get_then (ps ! i) = NotCallable)"
      note a = S(5)[OF nt i conjunct1[OF p] conjunct2[OF p]]
      have "heap W (qs ! i) = heap W0 (qs ! i)" using eW a by (simp add: extends_def)
      then show "state (heap W (qs ! i)) = FULFILLED \<and> value' (heap W (qs ! i)) = ps ! i"
        using a by simp
    qed
    show ?I3
    proof
      assume a: "(\<forall>i < length ps. state (heap W (qs ! i)) = FULFILLED) \<and> microtasks W = []"
      show "state (heap W r) = FULFILLED" by (rule o(1)[OF conjunct1[OF a] conjunct2[OF a]])
    qed
    show ?I4 by (rule impI) (erule o(2))
    show ?I5 by (rule impI) (erule o(3))
    show ?I6
    proof (intro allI impI)
      fix i assume i: "i < length ps"
        and a: "state (heap W (qs ! i)) = REJECTED \<and> microtasks W = []"
      show "state (heap W r) = REJECTED" by (rule o(4)[OF i conjunct1[OF a] conjunct2[OF a]])
    qed
    show ?I7
    proof (intro allI impI)
      fix W1 q d ts
      assume a: "(outside r c)\<^sup>*\<^sup>* W0 W1 \<and> state (heap W1 r) = PEDDING \<and>
          microtasks W1 = OnRejectedTask q (EntryReject r) d # ts \<and>
          (outside r c)\<^sup>*\<^sup>* (run_microtask W1) W"
      then have s1: "(outside r c)\<^sup>*\<^sup>* W0 W1" and pe: "state (heap W1 r) = PEDDING"
        and mt: "microtasks W1 = OnRejectedTask q (EntryReject r) d # ts"
        and s2: "(outside r c)\<^sup>*\<^sup>* (run_microtask W1) W" by simp_all
      have J1: "joined r c (length qs) qs W1"
        using outsides_keep[OF s1, of "length qs" qs] J0 by (simp add: keeps_def)
      note f = joined_first_rejection[OF J1 pe mt]
      have "r < nextPromise W1" using J1 by (simp add: joined_def subscribed_def bounds_ok_def)
      then have lt: "r < nextPromise (run_microtask W1)"
        using extends_run_microtask[of W1] by (simp add: extends_def)
      have "heap W r = heap (run_microtask W1) r"
        using outsides_extend[OF s2] lt f(3) by (simp add: extends_def)
      then show "q \<in> set qs \<and> state (heap W1 q) = REJECTED \<and>
          state (heap W r) = REJECTED \<and> reason (heap W r) = reason (heap W1 q)"
        using f by simp
    qed
  qed
  show ?thesis by (rule conjI[OF S(1)], rule conjI[OF B], rule impI, rule I)
qed

text \<open>
  Three runs. The example of the specification: \<open>all\<close> on a fulfilled promise, a rejected
  one and one that never settles, then two turns of the scheduler; the result is rejected
  with \<open>'e'\<close> while the third input is pending. A collection with the same promise twice,
  on inputs that already have callbacks and with a microtask waiting in the queue: the
  second input is fulfilled first, and the array then has the length of the collection
  while the result is not fulfilled; when the other input is fulfilled too, the result is
  fulfilled with the values at the indices of the inputs. And a collection whose second
  element has a \<open>then\<close> that throws when it is read.
\<close>

theorem all_position_matched_witness:
  "wellformed spec_inputs
   \<and> nextPromise spec_inputs = 3
   \<and> (outside 3 0)\<^sup>*\<^sup>* spec_call (run_microtask (run_microtask spec_call))
   \<and> state (heap (run_microtask (run_microtask spec_call)) 3) = REJECTED
   \<and> reason (heap (run_microtask (run_microtask spec_call)) 3) = JStr ''e''
   \<and> state (heap (run_microtask (run_microtask spec_call)) 2) = PEDDING
   \<and> wellformed busy_inputs
   \<and> nextPromise busy_inputs = 5
   \<and> (outside 5 0)\<^sup>*\<^sup>* busy_call busy_half
   \<and> results (cells busy_half 0) = [None, Some (JStr ''c'')]
   \<and> state (heap busy_half 5) \<noteq> FULFILLED
   \<and> (outside 5 0)\<^sup>*\<^sup>* busy_call busy_done
   \<and> state (heap busy_done 5) = FULFILLED
   \<and> value' (heap busy_done 5) = ArrayRef 0
   \<and> results (cells busy_done 0) = [Some (JStr ''a''), Some (JStr ''c''), Some (JStr ''a'')]
   \<and> wellformed empty_world
   \<and> state (heap (fst (Promise_all empty_world
         (Iterable [JNum 1, JObject (GetterThrows (JStr ''boom''))]))) 0) = REJECTED
   \<and> reason (heap (fst (Promise_all empty_world
         (Iterable [JNum 1, JObject (GetterThrows (JStr ''boom''))]))) 0) = JStr ''boom''"
proof -
  let ?ps = "[PromiseRef 0, PromiseRef 1, PromiseRef 2]"
  let ?W = "run_microtask (run_microtask spec_call)"
  have wf: "wellformed spec_inputs"
    unfolding spec_inputs_eq by (simp add: wellformed_def closed_task_def empty_world_def initValue_def)
  have ex: "\<forall>q. PromiseRef q \<in> set ?ps \<longrightarrow> q < nextPromise spec_inputs"
    by (auto simp: spec_inputs_eq)
  have n: "3 = nextPromise spec_inputs" "0 = nextCell spec_inputs"
    by (simp_all add: spec_inputs_eq empty_world_def)
  have qs: "[0, 1, 2] = normalised spec_inputs ?ps" by (simp add: normalised_def)
  have m: "outside a b v (run_microtask v)" for a b v by (rule outside_microtask)
  have ch: "(outside 3 0)\<^sup>*\<^sup>* spec_call ?W"
    by (rule rtranclp.rtrancl_into_rtrancl[where r = "outside 3 0" and b = "run_microtask spec_call"])
       (simp_all add: m r_into_rtranclp)
  have nt: "thrown_by ?ps = None" by simp
  note A = all_position_matched[OF wf ex n qs spec_call_def ch, THEN conjunct2, THEN conjunct2,
             rule_format, OF nt]
  have st: "state (heap ?W ([0, 1, 2] ! 1)) = REJECTED \<and> microtasks ?W = []"
    "state (heap ?W 0) = FULFILLED" "state (heap ?W 2) = PEDDING" "reason (heap ?W 1) = JStr ''e''"
    unfolding spec_done_eq by (simp_all add: empty_world_def initValue_def)
  have 1: "state (heap ?W 3) = REJECTED"
    by (rule A[THEN conjunct2, THEN conjunct2, THEN conjunct2, THEN conjunct2, THEN conjunct2,
          THEN conjunct1, rule_format, OF _ st(1)]) simp
  obtain i where i: "i < length ?ps" "state (heap ?W ([0, 1, 2] ! i)) = REJECTED"
      "reason (heap ?W 3) = reason (heap ?W ([0, 1, 2] ! i))"
    using A[THEN conjunct2, THEN conjunct2, THEN conjunct2, THEN conjunct2, THEN conjunct1,
          rule_format, OF 1] by blast
  have "i = 1" using i(1,2) st(2,3) by (auto simp: less_Suc_eq eval_nat_numeral)
  then have 2: "reason (heap ?W 3) = JStr ''e''" using i(3) st(4) by simp
  let ?qs = "[PromiseRef 0, PromiseRef 1, PromiseRef 0]"
  have wf2: "wellformed busy_inputs"
    unfolding busy_inputs_eq by (simp add: wellformed_def closed_task_def empty_world_def initValue_def)
  have ex2: "\<forall>q. PromiseRef q \<in> set ?qs \<longrightarrow> q < nextPromise busy_inputs"
    by (auto simp: busy_inputs_eq)
  have n2: "5 = nextPromise busy_inputs" "0 = nextCell busy_inputs"
    by (simp_all add: busy_inputs_eq empty_world_def)
  have qs2: "[0, 1, 0] = normalised busy_inputs ?qs" by (simp add: normalised_def)
  have s: "outside 5 0 v (resolve v p x)" if "p \<noteq> 5" for v p x
    using that by (rule outside_resolve)
  have t: "(outside 5 0)\<^sup>*\<^sup>* u v \<Longrightarrow> outside 5 0 v v' \<Longrightarrow> (outside 5 0)\<^sup>*\<^sup>* u v'" for u v v'
    by (rule rtranclp.rtrancl_into_rtrancl)
  have ch2: "(outside 5 0)\<^sup>*\<^sup>* busy_call busy_half"
    unfolding busy_half_def by (intro t[OF _ m] t[OF _ s]) simp_all
  have ch3: "(outside 5 0)\<^sup>*\<^sup>* busy_call busy_done"
    unfolding busy_done_def by (intro t[OF _ m] t[OF ch2 s]) simp
  have nt2: "thrown_by ?qs = None" by simp
  note B = all_position_matched[OF wf2 ex2 n2 qs2 busy_call_def ch3, THEN conjunct2, THEN conjunct2,
             rule_format, OF nt2]
  note C = all_position_matched[OF wf2 ex2 n2 qs2 busy_call_def ch2, THEN conjunct2, THEN conjunct2,
             rule_format, OF nt2]
  have f: "(\<forall>i < length ?qs. state (heap busy_done ([0, 1, 0] ! i)) = FULFILLED) \<and>
           microtasks busy_done = []"
    unfolding busy_done_eq by (simp add: empty_world_def initValue_def less_Suc_eq eval_nat_numeral)
  have vs: "map (\<lambda>i. Some (value' (heap busy_done ([0, 1, 0] ! i)))) [0..<length ?qs]
      = [Some (JStr ''a''), Some (JStr ''c''), Some (JStr ''a'')]"
    unfolding busy_done_eq by (simp add: empty_world_def initValue_def upt_rec eval_nat_numeral)
  have 3: "state (heap busy_done 5) = FULFILLED"
    by (rule B[THEN conjunct2, THEN conjunct2, THEN conjunct1, rule_format, OF f])
  have 4: "value' (heap busy_done 5) = ArrayRef 0"
    "results (cells busy_done 0) = [Some (JStr ''a''), Some (JStr ''c''), Some (JStr ''a'')]"
    using B[THEN conjunct2, THEN conjunct2, THEN conjunct2, THEN conjunct1, rule_format, OF 3]
    unfolding vs by simp_all
  have p: "state (heap busy_half 0) = PEDDING"
    "results (cells busy_half 0) = [None, Some (JStr ''c'')]"
    unfolding busy_half_eq by (simp_all add: empty_world_def initValue_def)
  have 5: "state (heap busy_half 5) \<noteq> FULFILLED"
  proof
    assume F: "state (heap busy_half 5) = FULFILLED"
    have "\<forall>i < length ?qs. state (heap busy_half ([0, 1, 0] ! i)) = FULFILLED"
      using C[THEN conjunct2, THEN conjunct2, THEN conjunct2, THEN conjunct1, rule_format, OF F]
      by simp
    then have "state (heap busy_half ([0, 1, 0] ! 0)) = FULFILLED"
      by (rule allE[where x = 0]) simp
    then show False using p(1) by simp
  qed
  let ?ts = "[JNum 1, JObject (GetterThrows (JStr ''boom''))]"
  have wf3: "wellformed empty_world" by (simp add: wellformed_def empty_world_def initValue_def)
  have ex3: "\<forall>q. PromiseRef q \<in> set ?ts \<longrightarrow> q < nextPromise empty_world" by simp
  have n3: "0 = nextPromise empty_world" "0 = nextCell empty_world" by (simp_all add: empty_world_def)
  have tb: "thrown_by ?ts = Some (JStr ''boom'')" by (simp add: isObject_def)
  note D = all_position_matched[OF wf3 ex3 n3 refl refl rtranclp.rtrancl_refl, THEN conjunct2,
             THEN conjunct1, rule_format, OF tb]
  show ?thesis using wf n(1) ch 1 2 st(3) wf2 n2(1) ch2 p(2) 5 ch3 3 4 wf3 D by simp
qed

section \<open>first-success\<close>

text \<open>
  C8, on the code. \<open>any\<close> evaluates \<open>new AggregateError()\<close> before it spreads the collection.
  The constructor of ECMA-262 iterates its first argument, \<open>undefined\<close> here, and throws a
  TypeError. So for every store and every collection the call of \<open>any\<close> throws that error,
  returns no promise and leaves the store as it was: no input gets a subscription, and the
  code that settles the result on the first fulfilment, or with the aggregate once every
  input is rejected, is never reached. On the example of the specification, a promise
  rejected with \<open>'a'\<close> and one fulfilled with \<open>2\<close>, the call throws where the result should
  be fulfilled with \<open>2\<close>.
\<close>

theorem any_throws_before_subscribing:
  "Promise_any ecma262_AggregateError w (Iterable ps) =
     (w, Inl (TypeError ''undefined is not iterable (cannot read property Symbol(Symbol.iterator))''))
   \<and> state (heap rejected_and_fulfilled 0) = REJECTED
   \<and> reason (heap rejected_and_fulfilled 0) = JStr ''a''
   \<and> state (heap rejected_and_fulfilled 1) = FULFILLED
   \<and> value' (heap rejected_and_fulfilled 1) = JNum 2
   \<and> Promise_any ecma262_AggregateError rejected_and_fulfilled (Iterable [PromiseRef 0, PromiseRef 1]) =
     (rejected_and_fulfilled,
      Inl (TypeError ''undefined is not iterable (cannot read property Symbol(Symbol.iterator))''))"
  by (simp add: Promise_any_def ecma262_AggregateError_def rejected_and_fulfilled_def run_simps)

end
